theory Spec2Isabelle
  imports Main "HOL-Library.Word"
begin

section \<open>Items and their three-way comparison\<close>

text \<open>
  The source compares items through the interface method \<open>compare(item) int\<close>, whose
  results are the constants \<open>greaterThan = 1\<close>, \<open>equal = 0\<close> and \<open>lessThan = -1\<close>.
  An item is modelled as a key from a linear order together with an opaque payload;
  \<open>compare\<close> looks at the key only, as \<open>numItem.compare\<close> does on its integer.
  Two items with the same key and different payloads compare equal and are still
  distinguishable.
\<close>

definition greaterThan_cmp :: int where "greaterThan_cmp = 1"
definition equal_cmp :: int where "equal_cmp = 0"
definition lessThan_cmp :: int where "lessThan_cmp = - 1"

type_synonym ('k, 'v) item = "'k \<times> 'v"

definition compare :: "('k::linorder, 'v) item \<Rightarrow> ('k, 'v) item \<Rightarrow> int" where
  "compare a b =
     (if fst a < fst b then lessThan_cmp
      else if fst a = fst b then equal_cmp
      else greaterThan_cmp)"

section \<open>Nodes\<close>

text \<open>
  A panic of the Go runtime or of the source is a value of \<open>error\<close>.
\<close>

datatype error =
    InvalidMinDegree
  | IndexOutOfRange
  | SliceBoundsOutOfRange
  | NilDereference
  | InvalidItemType
  | LenOutOfRange

text \<open>
  \<open>struct node\<close>: \<open>items\<close> is a slice of fixed length \<open>2t-1\<close> whose unused slots hold the
  nil interface value (\<open>None\<close>); \<open>children\<close> is the nil slice (\<open>[]\<close>) in a leaf and a slice
  of fixed length \<open>2t\<close> of node pointers (\<open>None\<close> is the nil pointer) otherwise. The field
  \<open>n\<close> of the source is \<open>node_n\<close>. Slots at and beyond \<open>node_n\<close> keep whatever was
  written there before; they are part of the model.

  A node owns its children, so a child is a value inside its parent and a mutation
  through a child pointer is an update of the parent's slot. One kind of slot is not
  owned: \<open>splitChild\<close> copies the upper child pointers of \<open>y\<close> into \<open>z\<close> and leaves them in
  \<open>y\<close>, beyond its new count. Such a stale slot aliases, in the source, a node that \<open>z\<close>
  goes on to mutate; in the model it holds the node as it was when the slot was written.
  The two agree on every slot in use and on every nil slot. Only the last-child read of
  \<open>search\<close> ever looks at a slot that is not in use.
\<close>

datatype ('k, 'v) node =
  Node (isLeaf: bool) (node_n: nat) (items: "('k, 'v) item option list")
       (children: "('k, 'v) node option list")

definition newNode :: "nat \<Rightarrow> bool \<Rightarrow> ('k, 'v) node" where
  "newNode t lf =
     Node lf 0 (replicate (2 * t - 1) None) (if lf then [] else replicate (2 * t) None)"

text \<open>Go's builtin \<open>copy(dst, src)\<close>: the first \<open>min (len dst) (len src)\<close> slots of \<open>dst\<close>
  are overwritten.\<close>

definition copy :: "'a list \<Rightarrow> 'a list \<Rightarrow> 'a list" where
  "copy dst src = take (length dst) src @ drop (length src) dst"

text \<open>\<open>copy(a[i+1:], a[i:])\<close> on one underlying array; slicing beyond the length panics.\<close>

definition shiftRight :: "nat \<Rightarrow> 'a list \<Rightarrow> error + 'a list" where
  "shiftRight i xs =
     (if i + 1 \<le> length xs
      then Inr (take (i + 1) xs @ copy (drop (i + 1) xs) (drop i xs))
      else Inl SliceBoundsOutOfRange)"

text \<open>\<open>n.children[i]\<close> followed by a field access or method call on the result.\<close>

definition childAt :: "('k, 'v) node \<Rightarrow> nat \<Rightarrow> error + ('k, 'v) node" where
  "childAt nd i =
     (if i < length (children nd)
      then (case children nd ! i of None \<Rightarrow> Inl NilDereference | Some c \<Rightarrow> Inr c)
      else Inl IndexOutOfRange)"

text \<open>
  The ascending scan \<open>for i = 0; i < n.n; i++\<close> that \<open>search\<close>, \<open>insertLeaf\<close> and
  \<open>insert\<close> all run: it stops at the first index where the comparison is \<open>equal\<close> or
  \<open>lessThan\<close> and otherwise runs to \<open>i = n.n\<close>.
\<close>

datatype scan = Found nat | Descend nat | Exhausted

function scanItems ::
  "('k::linorder, 'v) item \<Rightarrow> ('k, 'v) item option list \<Rightarrow> nat \<Rightarrow> nat \<Rightarrow> error + scan" where
  "scanItems x its cnt i =
     (if i < cnt then
        (if i < length its then
           (case its ! i of
              None \<Rightarrow> Inl InvalidItemType
            | Some cur \<Rightarrow>
                if compare x cur = equal_cmp then Inr (Found i)
                else if compare x cur = lessThan_cmp then Inr (Descend i)
                else scanItems x its cnt (i + 1))
         else Inl IndexOutOfRange)
      else Inr Exhausted)"
  by pat_completeness auto
termination
  by (relation "measure (\<lambda>(x, its, cnt, i). cnt - i)") auto

declare scanItems.simps [simp del]

text \<open>An upper bound on the nesting of child slots, stale ones included.\<close>

primrec depth :: "('k, 'v) node \<Rightarrow> nat" where
  "depth (Node lf cnt its cs) =
     Suc (foldr max (map (case_option 0 id) (map (map_option depth) cs)) 0)"

lemma foldr_max_slot:
  "Some c \<in> set cs \<Longrightarrow>
   depth c \<le> foldr max (map (case_option 0 id) (map (map_option depth) cs)) 0"
  by (induction cs) (auto simp: max_def)

lemma childAt_depth: "childAt nd i = Inr c \<Longrightarrow> depth c < depth nd"
proof -
  assume a: "childAt nd i = Inr c"
  then have "Some c \<in> set (children nd)"
    by (auto simp: childAt_def split: if_splits option.splits dest: nth_mem)
  then show ?thesis
    using foldr_max_slot [of c "children nd"] by (cases nd) simp
qed

subsection \<open>search\<close>

text \<open>
  \<open>func (n *node) search(item item) item\<close>. After the loop the source reads
  \<open>n.children[len(n.children) - 1]\<close>; on the nil slice of a malformed internal node the
  index is \<open>-1\<close>, which panics like any index out of range (the model's index \<open>0\<close> into \<open>[]\<close>).
\<close>

function node_search ::
  "('k::linorder, 'v) node \<Rightarrow> ('k, 'v) item \<Rightarrow> error + ('k, 'v) item option" where
  "node_search nd x =
     (case scanItems x (items nd) (node_n nd) 0 of
        Inl e \<Rightarrow> Inl e
      | Inr (Found i) \<Rightarrow> Inr (items nd ! i)
      | Inr (Descend i) \<Rightarrow>
          (case childAt nd i of Inl e \<Rightarrow> Inl e | Inr c \<Rightarrow> node_search c x)
      | Inr Exhausted \<Rightarrow>
          if isLeaf nd then Inr None
          else (case childAt nd (length (children nd) - 1) of
                  Inl e \<Rightarrow> Inl e
                | Inr c \<Rightarrow> node_search c x))"
  by pat_completeness auto
termination
  by (relation "measure (\<lambda>(nd, x). depth nd)") (auto dest: childAt_depth)

declare node_search.simps [simp del]

subsection \<open>insertLeaf\<close>

text \<open>\<open>n.items[i] = v\<close>, which panics when \<open>i\<close> is not below the length.\<close>

definition setItem ::
  "('k, 'v) item option list \<Rightarrow> nat \<Rightarrow> ('k, 'v) item option \<Rightarrow> error + ('k, 'v) item option list" where
  "setItem its i v = (if i < length its then Inr (its[i := v]) else Inl IndexOutOfRange)"

text \<open>
  \<open>func (n *node) insertLeaf(newItem item) (prev item)\<close>; the node is mutated in place, so
  the model returns it beside \<open>prev\<close>. The count grows exactly when \<open>prev == nil\<close>.
\<close>

definition insertLeaf ::
  "('k::linorder, 'v) node \<Rightarrow> ('k, 'v) item \<Rightarrow> error + (('k, 'v) item option \<times> ('k, 'v) node)" where
  "insertLeaf nd x =
     (case scanItems x (items nd) (node_n nd) 0 of
        Inl e \<Rightarrow> Inl e
      | Inr s \<Rightarrow>
          (case (case s of
                   Found i \<Rightarrow> Inr (i, items nd ! i, items nd)
                 | Descend i \<Rightarrow>
                     (case shiftRight i (items nd) of
                        Inl e \<Rightarrow> Inl e
                      | Inr its \<Rightarrow> Inr (i, None, its))
                 | Exhausted \<Rightarrow> Inr (node_n nd, None, items nd)) of
             Inl e \<Rightarrow> Inl e
           | Inr (i, prev, its) \<Rightarrow>
               (case setItem its i (Some x) of
                  Inl e \<Rightarrow> Inl e
                | Inr its' \<Rightarrow>
                    Inr (prev,
                         Node (isLeaf nd)
                              (if prev = None then node_n nd + 1 else node_n nd)
                              its' (children nd)))))"

subsection \<open>splitChild\<close>

text \<open>
  \<open>func (n *node) splitChild(t int, i int) (median item)\<close>. The child \<open>y\<close> and the parent are
  mutated in place; the model returns the parent, which holds the updated \<open>y\<close> at index \<open>i\<close>
  and the new node \<open>z\<close> at index \<open>i+1\<close>. Neither the items nor the children of \<open>y\<close> are
  cleared: only its count drops to \<open>t-1\<close>.
\<close>

definition splitChild ::
  "nat \<Rightarrow> nat \<Rightarrow> ('k, 'v) node \<Rightarrow> error + (('k, 'v) item option \<times> ('k, 'v) node)" where
  "splitChild t i nd =
     (case childAt nd i of
        Inl e \<Rightarrow> Inl e
      | Inr y \<Rightarrow>
          if \<not> (1 \<le> t \<and> t - 1 < length (items y)) then Inl IndexOutOfRange
          else if \<not> t \<le> length (items y) then Inl SliceBoundsOutOfRange
          else if \<not> isLeaf y \<and> \<not> t \<le> length (children y) then Inl SliceBoundsOutOfRange
          else
            let median = items y ! (t - 1);
                z0 = newNode t (isLeaf y);
                z = Node (isLeaf y) (t - 1)
                      (copy (items z0) (drop t (items y)))
                      (if \<not> isLeaf y then copy (children z0) (drop t (children y))
                       else children z0);
                y' = Node (isLeaf y) (t - 1) (items y) (children y)
            in (case shiftRight i (items nd) of
                  Inl e \<Rightarrow> Inl e
                | Inr its1 \<Rightarrow>
                    (case setItem its1 i median of
                       Inl e \<Rightarrow> Inl e
                     | Inr its2 \<Rightarrow>
                         (case shiftRight (i + 1) ((children nd)[i := Some y']) of
                            Inl e \<Rightarrow> Inl e
                          | Inr cs1 \<Rightarrow>
                              if i + 1 < length cs1
                              then Inr (median,
                                        Node (isLeaf nd) (node_n nd + 1) its2
                                             (cs1[i + 1 := Some z]))
                              else Inl IndexOutOfRange))))"

subsection \<open>insert\<close>

text \<open>
  \<open>func (n *node) insert(t int, newItem item) (prev item)\<close> on an internal node, up to its
  last line: either it has returned (\<open>Done\<close>, with \<open>prev\<close> and the node), or it is about to
  call \<open>c.insert(t, newItem)\<close> on the child at the given index of the (possibly split)
  node (\<open>Into\<close>).
\<close>

datatype ('k, 'v) step =
    Done "('k, 'v) item option" "('k, 'v) node"
  | Into "('k, 'v) node" nat

definition insertStep ::
  "nat \<Rightarrow> ('k::linorder, 'v) node \<Rightarrow> ('k, 'v) item \<Rightarrow> error + ('k, 'v) step" where
  "insertStep t nd x =
     (case scanItems x (items nd) (node_n nd) 0 of
        Inl e \<Rightarrow> Inl e
      | Inr (Found i) \<Rightarrow>
          Inr (Done (items nd ! i)
                 (Node (isLeaf nd) (node_n nd) ((items nd)[i := Some x]) (children nd)))
      | Inr s \<Rightarrow>
          let i = (case s of Descend j \<Rightarrow> j | _ \<Rightarrow> node_n nd) in
          (case childAt nd i of
             Inl e \<Rightarrow> Inl e
           | Inr c \<Rightarrow>
               if node_n c = 2 * t - 1 then
                 (case splitChild t i nd of
                    Inl e \<Rightarrow> Inl e
                  | Inr (median, nd') \<Rightarrow>
                      (case median of
                         None \<Rightarrow> Inl InvalidItemType
                       | Some m \<Rightarrow>
                           if compare x m = lessThan_cmp then Inr (Into nd' i)
                           else if compare x m = equal_cmp then
                             (case setItem (items nd') i (Some x) of
                                Inl e \<Rightarrow> Inl e
                              | Inr its \<Rightarrow>
                                  Inr (Done median
                                         (Node (isLeaf nd') (node_n nd') its (children nd'))))
                           else if compare x m = greaterThan_cmp then Inr (Into nd' (i + 1))
                           else Inr (Into nd' i)))
               else Inr (Into nd i)))"

text \<open>Storing the node that a recursive call has mutated keeps the parent's slot in step
  with the pointer the source holds.\<close>

definition setChild :: "('k, 'v) node \<Rightarrow> nat \<Rightarrow> ('k, 'v) node \<Rightarrow> ('k, 'v) node" where
  "setChild nd j c = Node (isLeaf nd) (node_n nd) (items nd) ((children nd)[j := Some c])"

lemma foldr_max_mono:
  "(\<And>c. Some c \<in> set cs \<Longrightarrow> depth c \<le> b) \<Longrightarrow>
   foldr max (map (case_option 0 id) (map (map_option depth) cs)) 0 \<le> b"
  by (induction cs) (auto split: option.splits)

lemma depth_le_slots:
  "(\<And>c. Some c \<in> set (children nd) \<Longrightarrow> depth c < b) \<Longrightarrow> 0 < b \<Longrightarrow> depth nd \<le> b"
proof -
  assume a: "\<And>c. Some c \<in> set (children nd) \<Longrightarrow> depth c < b" and b: "0 < b"
  have "foldr max (map (case_option 0 id) (map (map_option depth) (children nd))) 0 \<le> b - 1"
    by (rule foldr_max_mono) (use a in fastforce)
  then show ?thesis using b by (cases nd) simp
qed

lemma depth_pos: "0 < depth nd"
  by (cases nd) simp

lemma depth_slot_less: "Some c \<in> set (children nd) \<Longrightarrow> depth c < depth nd"
  using foldr_max_slot [of c "children nd"] by (cases nd) simp

lemma set_copy_subset: "set (copy dst src) \<subseteq> set dst \<union> set src"
  by (auto simp: copy_def dest: in_set_takeD in_set_dropD)

lemma shiftRight_subset: "shiftRight i xs = Inr ys \<Longrightarrow> set ys \<subseteq> set xs"
proof -
  assume a: "shiftRight i xs = Inr ys"
  have "set (copy (drop (i + 1) xs) (drop i xs)) \<subseteq> set xs"
    using set_copy_subset [of "drop (i + 1) xs" "drop i xs"]
      set_drop_subset [of "i + 1" xs] set_drop_subset [of i xs] by blast
  moreover have "set (take (i + 1) xs) \<subseteq> set xs" by (rule set_take_subset)
  ultimately show ?thesis using a by (auto simp: shiftRight_def split: if_splits)
qed

lemma splitChild_depth:
  assumes "splitChild t i nd = Inr (m, nd')" and "Some c \<in> set (children nd')"
  shows "depth c < depth nd"
proof -
  from assms(1) obtain y where y: "childAt nd i = Inr y"
    by (auto simp: splitChild_def split: sum.splits)
  then have ydep: "depth y < depth nd" by (rule childAt_depth)
  define y' where "y' = Node (isLeaf y) (t - 1) (items y) (children y)"
  define z where "z = Node (isLeaf y) (t - 1)
      (copy (items (newNode t (isLeaf y) :: ('a, 'b) node)) (drop t (items y)))
      (if \<not> isLeaf y then copy (children (newNode t (isLeaf y) :: ('a, 'b) node)) (drop t (children y))
       else children (newNode t (isLeaf y) :: ('a, 'b) node))"
  have dy': "depth y' = depth y" by (cases y) (simp add: y'_def)
  have "set (children z) \<subseteq> insert None (set (children y))"
    using set_copy_subset [of "children (newNode t (isLeaf y) :: ('a, 'b) node)" "drop t (children y)"]
    by (auto simp: z_def newNode_def dest: in_set_dropD)
  then have "\<And>c. Some c \<in> set (children z) \<Longrightarrow> depth c < depth y"
    using depth_slot_less by fastforce
  then have dz: "depth z \<le> depth y"
    using depth_le_slots [of z "depth y"] depth_pos [of y] by blast
  from assms(1) y obtain its1 its2 cs1 where
    cs1: "shiftRight (i + 1) ((children nd)[i := Some y']) = Inr cs1"
    and nd': "nd' = Node (isLeaf nd) (node_n nd + 1) its2 (cs1[i + 1 := Some z])"
    by (auto simp: splitChild_def Let_def y'_def z_def split: sum.splits if_splits)
  from assms(2) nd' have "Some c \<in> set (cs1[i + 1 := Some z])" by simp
  then have "c = z \<or> Some c \<in> set cs1"
    using set_update_subset_insert [of cs1 "i + 1" "Some z"] by auto
  moreover have "set cs1 \<subseteq> insert (Some y') (set (children nd))"
    using shiftRight_subset [OF cs1] set_update_subset_insert [of "children nd" i "Some y'"]
    by blast
  ultimately have "c = z \<or> c = y' \<or> Some c \<in> set (children nd)" by auto
  then show ?thesis using dz dy' ydep depth_slot_less [of c nd] by auto
qed

lemma childAt_mem: "childAt nd i = Inr c \<Longrightarrow> Some c \<in> set (children nd)"
  by (auto simp: childAt_def split: if_splits option.splits dest: nth_mem)

lemma insertStep_depth:
  assumes "insertStep t nd x = Inr (Into nd' j)" and "childAt nd' j = Inr c"
  shows "depth c < depth nd"
proof -
  have mem: "Some c \<in> set (children nd')" using assms(2) by (rule childAt_mem)
  from assms(1) have "nd' = nd \<or> (\<exists>i m. splitChild t i nd = Inr (m, nd'))"
    by (auto simp: insertStep_def Let_def split: sum.splits scan.splits if_splits option.splits)
  then show ?thesis using mem splitChild_depth depth_slot_less by blast
qed

text \<open>\<open>func (n *node) insert(t int, newItem item) (prev item)\<close>.\<close>

function node_insert ::
  "nat \<Rightarrow> ('k::linorder, 'v) node \<Rightarrow> ('k, 'v) item \<Rightarrow>
   error + (('k, 'v) item option \<times> ('k, 'v) node)" where
  "node_insert t nd x =
     (if isLeaf nd then insertLeaf nd x
      else
        (case insertStep t nd x of
           Inl e \<Rightarrow> Inl e
         | Inr (Done prev nd') \<Rightarrow> Inr (prev, nd')
         | Inr (Into nd' j) \<Rightarrow>
             (case childAt nd' j of
                Inl e \<Rightarrow> Inl e
              | Inr c \<Rightarrow>
                  (case node_insert t c x of
                     Inl e \<Rightarrow> Inl e
                   | Inr (prev, c') \<Rightarrow> Inr (prev, setChild nd' j c')))))"
  by pat_completeness auto
termination
  by (relation "measure (\<lambda>(t, nd, x). depth nd)") (auto dest: insertStep_depth)

declare node_insert.simps [simp del]

section \<open>The tree\<close>

text \<open>\<open>struct btree\<close>; the field \<open>t\<close> of the source is \<open>btree_t\<close>.\<close>

record ('k, 'v) btree =
  root :: "('k, 'v) node"
  btree_t :: nat
  len :: nat

text \<open>
  \<open>func newBTree(t int) *btree\<close>. Go's \<open>int\<close> is a 64-bit signed integer, so \<open>t\<close> is a
  64-bit word read with \<open>sint\<close> and \<open>2*t-1\<close> wraps. The function panics below 2. Then
  \<open>newNode(t, true)\<close> runs \<open>make([]item, 2*t-1)\<close>, which panics (\<open>makeslice: len out of
  range\<close>) when the length is negative or more than the runtime can allocate. That bound
  belongs to the Go runtime and the machine, not to this repository, and is the parameter
  \<open>maxLen\<close>; it is far below \<open>2^62\<close> on every machine. A tree that exists has
  \<open>2 \<le> t < 2^62\<close>, so the node operations take \<open>t\<close> as a natural number, and the nodes
  that \<open>insert\<close> allocates later, no larger than the root but for one more child slot, are
  taken to be allocated.
\<close>

definition newBTree :: "nat \<Rightarrow> 64 word \<Rightarrow> error + ('k, 'v) btree" where
  "newBTree maxLen t =
     (if sint t < 2 then Inl InvalidMinDegree
      else if sint (2 * t - 1) < 0 \<or> int maxLen < sint (2 * t - 1) then Inl LenOutOfRange
      else Inr \<lparr>root = newNode (nat (sint t)) True, btree_t = nat (sint t), len = 0\<rparr>)"

definition btree_search ::
  "('k::linorder, 'v) btree \<Rightarrow> ('k, 'v) item \<Rightarrow> error + ('k, 'v) item option" where
  "btree_search b x = node_search (root b) x"

text \<open>The body of \<open>if b.root.n == (2*b.t - 1)\<close> in \<open>btree.insert\<close>: a new internal root
  over the old one, split at once.\<close>

definition growRoot :: "nat \<Rightarrow> ('k, 'v) node \<Rightarrow> error + ('k, 'v) node" where
  "growRoot t oldRoot =
     (let r = newNode t False in
      if 0 < length (children r)
      then (case splitChild t 0 (setChild r 0 oldRoot) of
              Inl e \<Rightarrow> Inl e
            | Inr (median, r') \<Rightarrow> Inr r')
      else Inl IndexOutOfRange)"

text \<open>\<open>func (b *btree) insert(item item) (prev item)\<close>.\<close>

definition btree_insert ::
  "('k::linorder, 'v) btree \<Rightarrow> ('k, 'v) item \<Rightarrow>
   error + (('k, 'v) item option \<times> ('k, 'v) btree)" where
  "btree_insert b x =
     (case (if node_n (root b) = 2 * btree_t b - 1 then growRoot (btree_t b) (root b)
            else Inr (root b)) of
        Inl e \<Rightarrow> Inl e
      | Inr r \<Rightarrow>
          (case node_insert (btree_t b) r x of
             Inl e \<Rightarrow> Inl e
           | Inr (prev, r') \<Rightarrow>
               Inr (prev, b\<lparr>root := r', len := (if prev = None then len b + 1 else len b)\<rparr>)))"

text \<open>A sequence of inserts, stopping at the first panic.\<close>

fun insertAll ::
  "('k::linorder, 'v) btree \<Rightarrow> ('k, 'v) item list \<Rightarrow> error + ('k, 'v) btree" where
  "insertAll b [] = Inr b"
| "insertAll b (x # xs) =
     (case btree_insert b x of Inl e \<Rightarrow> Inl e | Inr (prev, b') \<Rightarrow> insertAll b' xs)"

section \<open>checkInvariances\<close>

text \<open>
  \<open>func (b *btree) checkInvariances() error\<close>. A returned error is a \<open>violation\<close>
  carrying the values the message is formatted from; \<open>nil\<close> is \<open>None\<close>. A panic is still
  an \<open>error\<close>. The method has a pointer receiver, so the model hands the tree back beside
  the result, as \<open>btree_insert\<close> does. The bounds \<open>2*b.t-1\<close> and \<open>b.t-1\<close> are computed
  on integers: they are negative when \<open>t\<close> is 0.
\<close>

datatype ('k, 'v) violation =
    DuplicateItems "('k, 'v) item" "('k, 'v) item"
  | NotAscending "('k, 'v) item" "('k, 'v) item"
  | RootInvalidN nat
  | NodeInvalidN nat
  | LeafHeightMismatch nat nat

text \<open>The closure \<open>traverseItems\<close>, from loop index \<open>i\<close> on; \<open>fn\<close> appends to \<open>items\<close>.\<close>

function traverseItemsFrom ::
  "('k, 'v) node \<Rightarrow> nat \<Rightarrow> error + ('k, 'v) item option list" where
  "traverseItemsFrom nd i =
     (if i < node_n nd then
        (case (if \<not> isLeaf nd
               then (case childAt nd i of Inl e \<Rightarrow> Inl e | Inr c \<Rightarrow> traverseItemsFrom c 0)
               else Inr []) of
           Inl e \<Rightarrow> Inl e
         | Inr xs \<Rightarrow>
             if i < length (items nd)
             then (case traverseItemsFrom nd (i + 1) of
                     Inl e \<Rightarrow> Inl e
                   | Inr ys \<Rightarrow> Inr (xs @ items nd ! i # ys))
             else Inl IndexOutOfRange)
      else if \<not> isLeaf nd
      then (case childAt nd i of Inl e \<Rightarrow> Inl e | Inr c \<Rightarrow> traverseItemsFrom c 0)
      else Inr [])"
  by pat_completeness auto
termination
  by (relation "measures [\<lambda>(nd, i). depth nd, \<lambda>(nd, i). node_n nd - i]")
    (auto dest: childAt_depth)

declare traverseItemsFrom.simps [simp del]

text \<open>The loop \<open>for i := 1; i < len(items); i++\<close> over the collected items.\<close>

fun checkAscending ::
  "('k::linorder, 'v) item option list \<Rightarrow> error + ('k, 'v) violation option" where
  "checkAscending (a # b # rest) =
     (case b of
        None \<Rightarrow> Inl NilDereference
      | Some bi \<Rightarrow>
          (case a of
             None \<Rightarrow> Inl InvalidItemType
           | Some ai \<Rightarrow>
               if compare bi ai = equal_cmp then Inr (Some (DuplicateItems ai bi))
               else if compare bi ai = lessThan_cmp then Inr (Some (NotAscending ai bi))
               else checkAscending (b # rest)))"
| "checkAscending rest = Inr None"

text \<open>The loop \<open>for i := 0; i < n.n+1; i++ { traverseNode(n.children[i], fn) }\<close>, from
  index \<open>i\<close> on: the nodes \<open>fn\<close> is called with, in order.\<close>

function traverseNodesFrom :: "('k, 'v) node \<Rightarrow> nat \<Rightarrow> error + ('k, 'v) node list" where
  "traverseNodesFrom nd i =
     (if i < node_n nd + 1 then
        (case childAt nd i of
           Inl e \<Rightarrow> Inl e
         | Inr c \<Rightarrow>
             (case (if \<not> isLeaf c then traverseNodesFrom c 0 else Inr []) of
                Inl e \<Rightarrow> Inl e
              | Inr xs \<Rightarrow>
                  (case traverseNodesFrom nd (i + 1) of
                     Inl e \<Rightarrow> Inl e
                   | Inr ys \<Rightarrow> Inr (c # xs @ ys))))
      else Inr [])"
  by pat_completeness auto
termination
  by (relation "measures [\<lambda>(nd, i). depth nd, \<lambda>(nd, i). node_n nd + 1 - i]")
    (auto dest: childAt_depth)

declare traverseNodesFrom.simps [simp del]

text \<open>The closure \<open>traverseHeight\<close>: the loop over the children of an internal node from
  index \<open>i\<close> on, \<open>level\<close> being the level of the node itself.\<close>

function traverseHeightFrom ::
  "('k, 'v) node \<Rightarrow> nat \<Rightarrow> nat \<Rightarrow> error + nat list" where
  "traverseHeightFrom nd level i =
     (if i \<le> node_n nd then
        (case childAt nd i of
           Inl e \<Rightarrow> Inl e
         | Inr c \<Rightarrow>
             (case (if isLeaf c then Inr [level + 1]
                    else traverseHeightFrom c (level + 1) 0) of
                Inl e \<Rightarrow> Inl e
              | Inr xs \<Rightarrow>
                  (case traverseHeightFrom nd level (i + 1) of
                     Inl e \<Rightarrow> Inl e
                   | Inr ys \<Rightarrow> Inr (xs @ ys))))
      else Inr [])"
  by pat_completeness auto
termination
  by (relation "measures [\<lambda>(nd, level, i). depth nd, \<lambda>(nd, level, i). node_n nd + 1 - i]")
    (auto dest: childAt_depth)

declare traverseHeightFrom.simps [simp del]

definition traverseHeight :: "('k, 'v) node \<Rightarrow> nat \<Rightarrow> error + nat list" where
  "traverseHeight nd level =
     (if isLeaf nd then Inr [level] else traverseHeightFrom nd level 0)"

definition checkInvariances ::
  "('k::linorder, 'v) btree \<Rightarrow> error + (('k, 'v) violation option \<times> ('k, 'v) btree)" where
  "checkInvariances b =
     (case traverseItemsFrom (root b) 0 of
        Inl e \<Rightarrow> Inl e
      | Inr its \<Rightarrow>
          (case checkAscending its of
             Inl e \<Rightarrow> Inl e
           | Inr (Some v) \<Rightarrow> Inr (Some v, b)
           | Inr None \<Rightarrow>
               if int (node_n (root b)) > 2 * int (btree_t b) - 1
               then Inr (Some (RootInvalidN (node_n (root b))), b)
               else
                 (case (if \<not> isLeaf (root b) then traverseNodesFrom (root b) 0 else Inr []) of
                    Inl e \<Rightarrow> Inl e
                  | Inr ns \<Rightarrow>
                      (case filter (\<lambda>m. int (node_n m) < int (btree_t b) - 1 \<or>
                                        int (node_n m) > 2 * int (btree_t b) - 1) ns of
                         m # ms \<Rightarrow> Inr (Some (NodeInvalidN (node_n (last (m # ms)))), b)
                       | [] \<Rightarrow>
                           (case traverseHeight (root b) 1 of
                              Inl e \<Rightarrow> Inl e
                            | Inr hs \<Rightarrow>
                                (case hs of
                                   [] \<Rightarrow> Inl IndexOutOfRange
                                 | height0 # rest \<Rightarrow>
                                     (case find (\<lambda>h. h \<noteq> height0) hs of
                                        Some h \<Rightarrow> Inr (Some (LeafHeightMismatch h height0), b)
                                      | None \<Rightarrow> Inr (None, b))))))))"

section \<open>The live part of a node\<close>

text \<open>
  Only the first \<open>n\<close> item slots and, in an internal node, the first \<open>n+1\<close> child slots of
  a node are in use. \<open>lits\<close> and \<open>kids\<close> read them off; nil slots are skipped.
\<close>

fun somes :: "'a option list \<Rightarrow> 'a list" where
  "somes [] = []"
| "somes (None # xs) = somes xs"
| "somes (Some x # xs) = x # somes xs"

definition lits :: "('k, 'v) node \<Rightarrow> ('k, 'v) item list" where
  "lits nd = somes (take (node_n nd) (items nd))"

definition kids :: "('k, 'v) node \<Rightarrow> ('k, 'v) node list" where
  "kids nd = (if isLeaf nd then [] else somes (take (Suc (node_n nd)) (children nd)))"

lemma somes_mem: "c \<in> set (somes xs) \<Longrightarrow> Some c \<in> set xs"
  by (induction xs rule: somes.induct) auto

lemma kids_depth: "c \<in> set (kids nd) \<Longrightarrow> depth c < depth nd"
proof -
  assume "c \<in> set (kids nd)"
  then have "Some c \<in> set (take (Suc (node_n nd)) (children nd))"
    by (auto simp: kids_def dest: somes_mem split: if_splits)
  then have "Some c \<in> set (children nd)" by (rule in_set_takeD)
  then show ?thesis by (rule depth_slot_less)
qed

text \<open>Children and items in traversal order: child 0, item 0, child 1, \<dots>, last child.
  A leaf has no children and yields its items.\<close>

fun il :: "'a list list \<Rightarrow> 'a list \<Rightarrow> 'a list" where
  "il [] xs = xs"
| "il (k # ks) [] = k @ il ks []"
| "il (k # ks) (x # xs) = k @ x # il ks xs"

function inorder :: "('k, 'v) node \<Rightarrow> ('k, 'v) item list" where
  "inorder nd = il (map inorder (kids nd)) (lits nd)"
  by pat_completeness auto
termination
  by (relation "measure depth") (auto dest: kids_depth)

declare inorder.simps [simp del]

text \<open>
  The slots in use are filled (\<open>slotsOk\<close>) and the arrays have the sizes \<open>newNode\<close> gives
  them (\<open>sized\<close>).
\<close>

definition slotsOk :: "('k, 'v) node \<Rightarrow> bool" where
  "slotsOk nd \<longleftrightarrow>
     node_n nd \<le> length (items nd) \<and>
     list_all (\<lambda>s. s \<noteq> None) (take (node_n nd) (items nd)) \<and>
     (isLeaf nd \<or>
        (node_n nd < length (children nd) \<and>
         list_all (\<lambda>s. s \<noteq> None) (take (Suc (node_n nd)) (children nd))))"

definition sized :: "nat \<Rightarrow> ('k, 'v) node \<Rightarrow> bool" where
  "sized t nd \<longleftrightarrow>
     length (items nd) = 2 * t - 1 \<and> node_n nd \<le> 2 * t - 1 \<and>
     (if isLeaf nd then children nd = [] else length (children nd) = 2 * t)"

text \<open>
  \<open>bt t h nd\<close>: \<open>nd\<close> is the root of a B-tree of minimum degree \<open>t\<close> with \<open>h\<close> levels: every
  node is well formed and holds at most \<open>2t-1\<close> items, every node below \<open>nd\<close> holds at
  least \<open>t-1\<close> items, and every leaf is on level \<open>h\<close> (the root being on level 1).
\<close>

function bt :: "nat \<Rightarrow> nat \<Rightarrow> ('k, 'v) node \<Rightarrow> bool" where
  "bt t h nd \<longleftrightarrow>
     slotsOk nd \<and> sized t nd \<and>
     (if isLeaf nd then h = 1
      else 1 < h \<and> (\<forall>c \<in> set (kids nd). t - 1 \<le> node_n c \<and> bt t (h - 1) c))"
  by pat_completeness auto
termination
  by (relation "measure (\<lambda>(t, h, nd). depth nd)") (auto dest: kids_depth)

declare bt.simps [simp del]

text \<open>Strictly ascending keys, hence no two items that compare equal.\<close>

definition ascending :: "('k::linorder, 'v) item list \<Rightarrow> bool" where
  "ascending xs \<longleftrightarrow> sorted_wrt (<) (map fst xs)"

text \<open>What an upsert does to an ascending list, and the stored item with the same key.\<close>

fun ins :: "('k::linorder, 'v) item \<Rightarrow> ('k, 'v) item list \<Rightarrow> ('k, 'v) item list" where
  "ins x [] = [x]"
| "ins x (y # ys) =
     (if fst x < fst y then x # y # ys
      else if fst x = fst y then x # ys
      else y # ins x ys)"

definition stored :: "('k, 'v) item \<Rightarrow> ('k, 'v) item list \<Rightarrow> ('k, 'v) item option" where
  "stored x xs = find (\<lambda>y. fst y = fst x) xs"

text \<open>
  The number of levels on the leftmost path; in a balanced tree, the level of every leaf.
\<close>

function height :: "('k, 'v) node \<Rightarrow> nat" where
  "height nd =
     (if isLeaf nd then 1
      else (case kids nd of [] \<Rightarrow> 1 | c # cs \<Rightarrow> Suc (height c)))"
  by pat_completeness auto
termination
  by (relation "measure depth") (auto intro: kids_depth)

declare height.simps [simp del]

text \<open>The nodes of a subtree, root first, and the levels of its leaves, as the closures
  \<open>traverseNode\<close> and \<open>traverseHeight\<close> of \<open>checkInvariances\<close> visit them.\<close>

function nodes :: "('k, 'v) node \<Rightarrow> ('k, 'v) node list" where
  "nodes nd = nd # concat (map nodes (kids nd))"
  by pat_completeness auto
termination
  by (relation "measure depth") (auto dest: kids_depth)

declare nodes.simps [simp del]

function leafLevels :: "('k, 'v) node \<Rightarrow> nat \<Rightarrow> nat list" where
  "leafLevels nd level =
     (if isLeaf nd then [level]
      else concat (map (\<lambda>c. leafLevels c (level + 1)) (kids nd)))"
  by pat_completeness auto
termination
  by (relation "measure (\<lambda>(nd, level). depth nd)") (auto dest: kids_depth)

declare leafLevels.simps [simp del]

text \<open>
  The states of a tree that the operations keep: \<open>t \<ge> 2\<close>, the root is a B-tree in the
  sense of \<open>bt\<close> (exempt from the lower bound itself), and the traversal is ascending.
\<close>

definition btreeInv :: "('k::linorder, 'v) btree \<Rightarrow> bool" where
  "btreeInv b \<longleftrightarrow>
     2 \<le> btree_t b \<and> bt (btree_t b) (height (root b)) (root b) \<and>
     ascending (inorder (root b))"

text \<open>
  A tree is \<open>shaped\<close> when the slots in use are filled in every node; nothing is asked of
  the counts, the order of the items or the levels of the leaves.
\<close>

function shaped :: "('k, 'v) node \<Rightarrow> bool" where
  "shaped nd \<longleftrightarrow> slotsOk nd \<and> (\<forall>c \<in> set (kids nd). shaped c)"
  by pat_completeness auto
termination
  by (relation "measure depth") (auto dest: kids_depth)

declare shaped.simps [simp del]


section \<open>Reasoning about the arrays\<close>

lemma somes_map_Some [simp]: "somes (map Some xs) = xs"
  by (induction xs) auto

lemma somes_all: "list_all (\<lambda>s. s \<noteq> None) xs \<Longrightarrow> map Some (somes xs) = xs"
  by (induction xs rule: somes.induct) auto

lemma slotsOk_items:
  assumes "slotsOk nd"
  shows "items nd = map Some (lits nd) @ drop (node_n nd) (items nd)"
    and "length (lits nd) = node_n nd"
proof -
  have a: "map Some (lits nd) = take (node_n nd) (items nd)"
    using assms by (simp add: slotsOk_def lits_def somes_all)
  then show "items nd = map Some (lits nd) @ drop (node_n nd) (items nd)" by simp
  have "length (map Some (lits nd)) = node_n nd"
    using assms unfolding a by (simp add: slotsOk_def)
  then show "length (lits nd) = node_n nd" by simp
qed

lemma slotsOk_children:
  assumes "slotsOk nd" "\<not> isLeaf nd"
  shows "children nd = map Some (kids nd) @ drop (Suc (node_n nd)) (children nd)"
    and "length (kids nd) = Suc (node_n nd)"
proof -
  have a: "map Some (kids nd) = take (Suc (node_n nd)) (children nd)"
    using assms by (simp add: slotsOk_def kids_def somes_all)
  then show "children nd = map Some (kids nd) @ drop (Suc (node_n nd)) (children nd)" by simp
  have "length (map Some (kids nd)) = Suc (node_n nd)"
    using assms unfolding a by (simp add: slotsOk_def)
  then show "length (kids nd) = Suc (node_n nd)" by simp
qed

lemma scanItems_spec:
  "\<exists>r. scanItems x (map Some L @ rest) (length L) i = Inr r \<and>
     (case r of
        Found j \<Rightarrow> i \<le> j \<and> j < length L \<and> fst (L ! j) = fst x \<and>
                   (\<forall>k. i \<le> k \<and> k < j \<longrightarrow> fst (L ! k) < fst x)
      | Descend j \<Rightarrow> i \<le> j \<and> j < length L \<and> fst x < fst (L ! j) \<and>
                   (\<forall>k. i \<le> k \<and> k < j \<longrightarrow> fst (L ! k) < fst x)
      | Exhausted \<Rightarrow> (\<forall>k. i \<le> k \<and> k < length L \<longrightarrow> fst (L ! k) < fst x))"
proof (induction "length L - i" arbitrary: i)
  case 0
  then show ?case by (subst scanItems.simps) auto
next
  case (Suc d)
  then have i: "i < length L" and d: "d = length L - Suc i" by auto
  from Suc(1) [OF d] obtain r where
    r: "scanItems x (map Some L @ rest) (length L) (Suc i) = Inr r"
       "(case r of
        Found j \<Rightarrow> Suc i \<le> j \<and> j < length L \<and> fst (L ! j) = fst x \<and>
                   (\<forall>k. Suc i \<le> k \<and> k < j \<longrightarrow> fst (L ! k) < fst x)
      | Descend j \<Rightarrow> Suc i \<le> j \<and> j < length L \<and> fst x < fst (L ! j) \<and>
                   (\<forall>k. Suc i \<le> k \<and> k < j \<longrightarrow> fst (L ! k) < fst x)
      | Exhausted \<Rightarrow> (\<forall>k. Suc i \<le> k \<and> k < length L \<longrightarrow> fst (L ! k) < fst x))"
    by blast
  have nth: "(map Some L @ rest) ! i = Some (L ! i)" using i by (simp add: nth_append)
  consider (eq) "fst x = fst (L ! i)" | (lt) "fst x < fst (L ! i)" | (gt) "fst (L ! i) < fst x"
    by (meson linorder_less_linear)
  then show ?case
  proof cases
    case eq
    then show ?thesis using i nth
      by (subst scanItems.simps) (auto simp: compare_def equal_cmp_def lessThan_cmp_def greaterThan_cmp_def)
  next
    case lt
    then show ?thesis using i nth
      by (subst scanItems.simps) (auto simp: compare_def equal_cmp_def lessThan_cmp_def greaterThan_cmp_def)
  next
    case gt
    then have "scanItems x (map Some L @ rest) (length L) i = Inr r"
      using i nth r(1)
      by (subst scanItems.simps) (auto simp: compare_def equal_cmp_def lessThan_cmp_def greaterThan_cmp_def)
    moreover have "\<And>k. i \<le> k \<Longrightarrow> k \<noteq> i \<Longrightarrow> Suc i \<le> k" by simp
    ultimately show ?thesis using r(2) gt
      by (cases r) (auto simp: le_Suc_eq dest!: Suc_leD, (metis le_antisym not_less_eq_eq)+)
  qed
qed


definition scanned :: "('k::linorder, 'v) item \<Rightarrow> ('k, 'v) item list \<Rightarrow> scan \<Rightarrow> bool" where
  "scanned x L r \<longleftrightarrow>
     (case r of
        Found j \<Rightarrow> j < length L \<and> fst (L ! j) = fst x \<and> (\<forall>k<j. fst (L ! k) < fst x)
      | Descend j \<Rightarrow> j < length L \<and> fst x < fst (L ! j) \<and> (\<forall>k<j. fst (L ! k) < fst x)
      | Exhausted \<Rightarrow> (\<forall>k<length L. fst (L ! k) < fst x))"

lemma scanItems_scanned:
  "\<exists>r. scanItems x (map Some L @ rest) (length L) 0 = Inr r \<and> scanned x L r"
  using scanItems_spec [of x L rest 0] by (auto simp: scanned_def split: scan.splits)

lemma ins_Found:
  "j < length L \<Longrightarrow> fst (L ! j) = fst x \<Longrightarrow> \<forall>k<j. fst (L ! k) < fst x \<Longrightarrow>
   ins x L = L[j := x] \<and> stored x L = Some (L ! j)"
proof (induction L arbitrary: j)
  case Nil
  then show ?case by simp
next
  case (Cons a L)
  show ?case
  proof (cases j)
    case 0
    then show ?thesis using Cons.prems by (simp add: stored_def)
  next
    case (Suc j')
    then have "fst a < fst x" using Cons.prems(3) by auto
    moreover have "ins x L = L[j' := x] \<and> stored x L = Some (L ! j')"
      using Cons.prems Suc by (intro Cons.IH) auto
    ultimately show ?thesis using Suc by (auto simp: stored_def)
  qed
qed

lemma ins_Descend:
  "j < length L \<Longrightarrow> fst x < fst (L ! j) \<Longrightarrow> \<forall>k<j. fst (L ! k) < fst x \<Longrightarrow>
   ins x L = take j L @ x # drop j L"
proof (induction L arbitrary: j)
  case Nil
  then show ?case by simp
next
  case (Cons a L)
  show ?case
  proof (cases j)
    case 0
    then show ?thesis using Cons.prems by auto
  next
    case (Suc j')
    then have "fst a < fst x" using Cons.prems(3) by auto
    moreover have "ins x L = take j' L @ x # drop j' L"
      using Cons.prems Suc by (intro Cons.IH) auto
    ultimately show ?thesis using Suc by auto
  qed
qed

lemma stored_Descend:
  assumes "ascending L" "j < length L" "fst x < fst (L ! j)" "\<forall>k<j. fst (L ! k) < fst x"
  shows "stored x L = None"
proof -
  have "fst (L ! k) \<noteq> fst x" if k: "k < length L" for k
  proof (cases "k < j")
    case True
    then show ?thesis using assms(4) by auto
  next
    case False
    then have "fst (L ! j) \<le> fst (L ! k)"
      using assms(1,2) k
      by (cases "k = j") (auto simp: ascending_def sorted_wrt_iff_nth_less less_imp_le)
    then show ?thesis using assms(3) by auto
  qed
  then show ?thesis
    unfolding stored_def find_None_iff by (metis in_set_conv_nth)
qed

lemma ins_Exhausted:
  "\<forall>k<length L. fst (L ! k) < fst x \<Longrightarrow> ins x L = L @ [x] \<and> stored x L = None"
proof (induction L)
  case Nil
  then show ?case by (simp add: stored_def)
next
  case (Cons a L)
  then have "fst a < fst x" by auto
  moreover have "ins x L = L @ [x] \<and> stored x L = None"
    using Cons.prems by (intro Cons.IH) auto
  ultimately show ?case by (auto simp: stored_def)
qed

lemma copy_shift: "i < length xs \<Longrightarrow> copy (drop (Suc i) xs) (drop i xs) = drop i (butlast xs)"
  by (simp add: copy_def butlast_conv_take drop_take)

lemma shiftRight_set:
  assumes "i < length xs"
  shows "\<exists>ys. shiftRight i xs = Inr ys \<and> length ys = length xs \<and>
           ys[i := v] = take i xs @ v # drop i (butlast xs)"
proof -
  let ?ys = "take (Suc i) xs @ drop i (butlast xs)"
  have "shiftRight i xs = Inr ?ys"
    using assms by (simp add: shiftRight_def copy_shift)
  moreover have "length ?ys = length xs" using assms by simp
  moreover have "?ys[i := v] = take i xs @ v # drop i (butlast xs)"
    using assms by (simp add: take_Suc_conv_app_nth list_update_append)
  ultimately show ?thesis by blast
qed

lemma lits_rep: "items nd = map Some L @ rest \<Longrightarrow> node_n nd = length L \<Longrightarrow> lits nd = L"
  by (simp add: lits_def)

lemma kids_rep:
  "\<not> isLeaf nd \<Longrightarrow> children nd = map Some K @ crest \<Longrightarrow> length K = Suc (node_n nd) \<Longrightarrow>
   kids nd = K"
  by (simp add: kids_def)

lemma kids_leaf: "isLeaf nd \<Longrightarrow> kids nd = []"
  by (simp add: kids_def)

lemma slotsOk_rep:
  assumes "items nd = map Some L @ rest" "node_n nd = length L"
    and "isLeaf nd \<or> (children nd = map Some K @ crest \<and> length K = Suc (node_n nd))"
  shows "slotsOk nd"
  using assms by (auto simp: slotsOk_def list_all_iff)


lemma insertLeaf_spec:
  assumes ok: "slotsOk nd" and sz: "sized t nd" and leaf: "isLeaf nd"
    and room: "node_n nd < 2 * t - 1" and asc: "ascending (lits nd)"
  shows "\<exists>nd'. insertLeaf nd x = Inr (stored x (lits nd), nd') \<and>
           slotsOk nd' \<and> sized t nd' \<and> isLeaf nd' \<and> lits nd' = ins x (lits nd) \<and>
           node_n nd \<le> node_n nd'"
proof -
  define L where "L = lits nd"
  define rest where "rest = drop (node_n nd) (items nd)"
  have its: "items nd = map Some L @ rest" and len: "length L = node_n nd"
    using slotsOk_items [OF ok] by (simp_all add: L_def rest_def)
  have li: "length (items nd) = 2 * t - 1" and ch: "children nd = []"
    using sz leaf by (simp_all add: sized_def)
  have rest: "rest \<noteq> []" using room li by (simp add: rest_def)
  obtain r where r: "scanItems x (items nd) (node_n nd) 0 = Inr r" and sc: "scanned x L r"
    using scanItems_scanned [of x L rest] its len by auto
  show ?thesis
  proof (cases r)
    case (Found j)
    then have j: "j < length L" "fst (L ! j) = fst x" "\<forall>k<j. fst (L ! k) < fst x"
      using sc by (simp_all add: scanned_def)
    let ?nd = "Node (isLeaf nd) (node_n nd) ((items nd)[j := Some x]) (children nd)"
    have st: "ins x L = L[j := x]" "stored x L = Some (L ! j)"
      using ins_Found [OF j] by simp_all
    have run: "insertLeaf nd x = Inr (stored x L, ?nd)"
      using r Found j(1) its len li st(2)
      by (simp add: insertLeaf_def setItem_def nth_append)
    have its': "items ?nd = map Some (L[j := x]) @ rest"
      using j(1) its by (simp add: list_update_append map_update)
    have "slotsOk ?nd"
      by (rule slotsOk_rep [OF its']) (use leaf len in simp_all)
    moreover have "lits ?nd = L[j := x]"
      by (rule lits_rep [OF its']) (use len in simp)
    moreover have "sized t ?nd" using sz by (simp add: sized_def)
    ultimately show ?thesis using run st(1) leaf by (auto simp: L_def)
  next
    case (Descend j)
    then have j: "j < length L" "fst x < fst (L ! j)" "\<forall>k<j. fst (L ! k) < fst x"
      using sc by (simp_all add: scanned_def)
    have st: "ins x L = take j L @ x # drop j L" using ins_Descend [OF j] .
    have st2: "stored x L = None" using stored_Descend [OF _ j] asc by (simp add: L_def)
    have jl: "j < length (items nd)" using j(1) its by simp
    obtain ys where ys: "shiftRight j (items nd) = Inr ys" "length ys = length (items nd)"
      "ys[j := Some x] = take j (items nd) @ Some x # drop j (butlast (items nd))"
      using shiftRight_set [OF jl] by blast
    let ?nd = "Node (isLeaf nd) (node_n nd + 1) (ys[j := Some x]) (children nd)"
    have run: "insertLeaf nd x = Inr (stored x L, ?nd)"
      using r Descend ys(1,2) jl st2
      by (simp add: insertLeaf_def setItem_def)
    have its': "items ?nd = map Some (take j L @ x # drop j L) @ butlast rest"
      using j(1) its rest ys(3) by (simp add: butlast_append take_map drop_map)
    have "slotsOk ?nd"
      by (rule slotsOk_rep [OF its']) (use leaf len j(1) in simp_all)
    moreover have "lits ?nd = take j L @ x # drop j L"
      by (rule lits_rep [OF its']) (use len j(1) in simp)
    moreover have "sized t ?nd" using sz room ys(2) by (simp add: sized_def)
    ultimately show ?thesis using run st leaf by (auto simp: L_def)
  next
    case Exhausted
    then have j: "\<forall>k<length L. fst (L ! k) < fst x"
      using sc by (simp add: scanned_def)
    have st: "ins x L = L @ [x]" "stored x L = None" using ins_Exhausted [OF j] by simp_all
    let ?nd = "Node (isLeaf nd) (node_n nd + 1) ((items nd)[node_n nd := Some x]) (children nd)"
    have run: "insertLeaf nd x = Inr (stored x L, ?nd)"
      using r Exhausted room li st(2)
      by (simp add: insertLeaf_def setItem_def)
    have its': "items ?nd = map Some (L @ [x]) @ tl rest"
      using its rest len by (cases rest) (simp_all add: list_update_append)
    have "slotsOk ?nd"
      by (rule slotsOk_rep [OF its']) (use leaf len in simp_all)
    moreover have "lits ?nd = L @ [x]"
      by (rule lits_rep [OF its']) (use len in simp)
    moreover have "sized t ?nd" using sz room by (simp add: sized_def)
    ultimately show ?thesis using run st(1) leaf by (auto simp: L_def)
  qed
qed

text \<open>The two halves \<open>splitChild\<close> makes of a full child: \<open>y\<close> with its count cut to
  \<open>t-1\<close>, and the new node \<open>z\<close>.\<close>

definition lowerHalf :: "nat \<Rightarrow> ('k, 'v) node \<Rightarrow> ('k, 'v) node" where
  "lowerHalf t y = Node (isLeaf y) (t - 1) (items y) (children y)"

definition upperHalf :: "nat \<Rightarrow> ('k, 'v) node \<Rightarrow> ('k, 'v) node" where
  "upperHalf t y =
     Node (isLeaf y) (t - 1)
       (copy (replicate (2 * t - 1) None) (drop t (items y)))
       (if \<not> isLeaf y then copy (replicate (2 * t) None) (drop t (children y)) else [])"

lemma full_items:
  assumes "slotsOk y" "sized t y" "node_n y = 2 * t - 1"
  shows "items y = map Some (lits y)" "length (lits y) = 2 * t - 1"
proof -
  have "drop (node_n y) (items y) = []" using assms by (simp add: sized_def)
  then show "items y = map Some (lits y)" using slotsOk_items(1) [OF assms(1)] by simp
  show "length (lits y) = 2 * t - 1" using slotsOk_items(2) [OF assms(1)] assms(3) by simp
qed

lemma full_children:
  assumes "slotsOk y" "sized t y" "node_n y = 2 * t - 1" "\<not> isLeaf y" "1 \<le> t"
  shows "children y = map Some (kids y)" "length (kids y) = 2 * t"
proof -
  have "drop (Suc (node_n y)) (children y) = []" using assms by (simp add: sized_def)
  then show "children y = map Some (kids y)" using slotsOk_children(1) [OF assms(1,4)] by simp
  show "length (kids y) = 2 * t" using slotsOk_children(2) [OF assms(1,4)] assms(3,5) by simp
qed

lemma lowerHalf_spec:
  assumes "slotsOk y" "sized t y" "node_n y = 2 * t - 1" "1 \<le> t"
  shows "slotsOk (lowerHalf t y) \<and> sized t (lowerHalf t y) \<and>
         isLeaf (lowerHalf t y) = isLeaf y \<and> node_n (lowerHalf t y) = t - 1 \<and>
         lits (lowerHalf t y) = take (t - 1) (lits y) \<and>
         kids (lowerHalf t y) = take t (kids y)"
proof -
  let ?y = "lowerHalf t y"
  have its: "items ?y = map Some (take (t - 1) (lits y)) @ map Some (drop (t - 1) (lits y))"
    using full_items(1) [OF assms(1-3)] by (simp add: lowerHalf_def flip: map_append)
  have n: "node_n ?y = length (take (t - 1) (lits y))"
    using full_items(2) [OF assms(1-3)] by (simp add: lowerHalf_def)
  have leaf: "isLeaf ?y = isLeaf y" by (simp add: lowerHalf_def)
  have ch: "children ?y = map Some (take t (kids y)) @ map Some (drop t (kids y)) \<and>
            length (take t (kids y)) = Suc (node_n ?y)" if "\<not> isLeaf y"
    using full_children [OF assms(1-3) that assms(4)] assms(4)
    by (simp add: lowerHalf_def flip: map_append)
  have "slotsOk ?y"
    using slotsOk_rep [OF its n, of "take t (kids y)" "map Some (drop t (kids y))"] ch leaf
    by blast
  moreover have "lits ?y = take (t - 1) (lits y)" by (rule lits_rep [OF its n])
  moreover have "kids ?y = take t (kids y)"
  proof (cases "isLeaf y")
    case True
    then show ?thesis by (simp add: kids_def lowerHalf_def)
  next
    case False
    then show ?thesis using ch leaf kids_rep [of ?y "take t (kids y)"] by simp
  qed
  moreover have "sized t ?y" using assms by (simp add: sized_def lowerHalf_def)
  ultimately show ?thesis using leaf by (simp add: lowerHalf_def)
qed

lemma upperHalf_spec:
  assumes "slotsOk y" "sized t y" "node_n y = 2 * t - 1" "1 \<le> t"
  shows "slotsOk (upperHalf t y) \<and> sized t (upperHalf t y) \<and>
         isLeaf (upperHalf t y) = isLeaf y \<and> node_n (upperHalf t y) = t - 1 \<and>
         lits (upperHalf t y) = drop t (lits y) \<and>
         kids (upperHalf t y) = drop t (kids y)"
proof -
  let ?z = "upperHalf t y"
  have its: "items ?z = map Some (drop t (lits y)) @ replicate t None"
    using full_items [OF assms(1-3)] assms(4)
    by (simp add: upperHalf_def copy_def drop_map)
  have n: "node_n ?z = length (drop t (lits y))"
    using full_items(2) [OF assms(1-3)] by (simp add: upperHalf_def)
  have leaf: "isLeaf ?z = isLeaf y" by (simp add: upperHalf_def)
  have ch: "children ?z = map Some (drop t (kids y)) @ replicate t None \<and>
            length (drop t (kids y)) = Suc (node_n ?z)" if "\<not> isLeaf y"
    using full_children [OF assms(1-3) that assms(4)] assms(4) that
    by (simp add: upperHalf_def copy_def drop_map)
  have "slotsOk ?z"
    using slotsOk_rep [OF its n, of "drop t (kids y)" "replicate t None"] ch leaf
    by blast
  moreover have "lits ?z = drop t (lits y)" by (rule lits_rep [OF its n])
  moreover have "kids ?z = drop t (kids y)"
  proof (cases "isLeaf y")
    case True
    then show ?thesis by (simp add: kids_def upperHalf_def)
  next
    case False
    then show ?thesis using ch leaf kids_rep [of ?z "drop t (kids y)"] by simp
  qed
  moreover have "sized t ?z" using assms by (auto simp: sized_def upperHalf_def copy_def)
  ultimately show ?thesis using leaf by (simp add: upperHalf_def)
qed


lemma childAt_kids:
  assumes "slotsOk nd" "\<not> isLeaf nd" "i \<le> node_n nd"
  shows "childAt nd i = Inr (kids nd ! i)"
proof -
  have "children nd ! i = Some (kids nd ! i)" "i < length (children nd)"
    using slotsOk_children [OF assms(1,2)] assms(3)
    by (metis length_map less_Suc_eq_le nth_append nth_map,
        metis length_append length_map less_Suc_eq_le trans_less_add1)
  then show ?thesis by (simp add: childAt_def)
qed

lemma splitChild_spec:
  assumes ok: "slotsOk nd" and sz: "sized t nd" and int: "\<not> isLeaf nd"
    and room: "node_n nd < 2 * t - 1" and i: "i \<le> node_n nd"
    and yok: "slotsOk (kids nd ! i)" and ysz: "sized t (kids nd ! i)"
    and yfull: "node_n (kids nd ! i) = 2 * t - 1" and t: "1 \<le> t"
  shows "\<exists>nd'. splitChild t i nd = Inr (Some (lits (kids nd ! i) ! (t - 1)), nd') \<and>
           slotsOk nd' \<and> sized t nd' \<and> \<not> isLeaf nd' \<and> node_n nd' = node_n nd + 1 \<and>
           lits nd' = take i (lits nd) @ lits (kids nd ! i) ! (t - 1) # drop i (lits nd) \<and>
           kids nd' = take i (kids nd) @ lowerHalf t (kids nd ! i) # upperHalf t (kids nd ! i)
                        # drop (Suc i) (kids nd)"
proof -
  define y where "y = kids nd ! i"
  define L where "L = lits nd"
  define K where "K = kids nd"
  define rest where "rest = drop (node_n nd) (items nd)"
  define crest where "crest = drop (Suc (node_n nd)) (children nd)"
  define m where "m = lits y ! (t - 1)"
  have its: "items nd = map Some L @ rest" and len: "length L = node_n nd"
    using slotsOk_items [OF ok] by (simp_all add: L_def rest_def)
  have chs: "children nd = map Some K @ crest" and lenK: "length K = Suc (node_n nd)"
    using slotsOk_children [OF ok int] by (simp_all add: K_def crest_def)
  have li: "length (items nd) = 2 * t - 1" and lc: "length (children nd) = 2 * t"
    using sz int by (simp_all add: sized_def)
  have rest: "rest \<noteq> []" using room li by (simp add: rest_def)
  have crest: "crest \<noteq> []" using room lc t by (simp add: crest_def)
  have cy: "childAt nd i = Inr y" using childAt_kids [OF ok int i] by (simp add: y_def)
  have yit: "items y = map Some (lits y)" "length (lits y) = 2 * t - 1"
    using full_items [OF yok ysz yfull] by (simp_all add: y_def)
  have tl: "t - 1 < length (lits y)" using yit(2) t by arith
  have med: "items y ! (t - 1) = Some m"
    using tl yit(1) by (simp add: m_def)
  have ylc: "\<not> isLeaf y \<Longrightarrow> length (children y) = 2 * t"
    using ysz by (simp add: sized_def y_def)
  have il: "i < length (items nd)" using i room li by simp
  obtain ys where ys: "shiftRight i (items nd) = Inr ys" "length ys = length (items nd)"
    "ys[i := Some m] = take i (items nd) @ Some m # drop i (butlast (items nd))"
    using shiftRight_set [OF il] by blast
  define cs where "cs = (children nd)[i := Some (lowerHalf t y)]"
  have cl: "i + 1 < length cs" using i room lc by (simp add: cs_def)
  obtain cs1 where cs1: "shiftRight (i + 1) cs = Inr cs1" "length cs1 = length cs"
    "cs1[i + 1 := Some (upperHalf t y)] =
       take (i + 1) cs @ Some (upperHalf t y) # drop (i + 1) (butlast cs)"
    using shiftRight_set [OF cl] by blast
  define nd' where
    "nd' = Node (isLeaf nd) (node_n nd + 1) (ys[i := Some m]) (cs1[i + 1 := Some (upperHalf t y)])"
  have ar: "t \<le> 2 * t - Suc 0" "t - Suc 0 < 2 * t - Suc 0" using t by arith+
  have run: "splitChild t i nd = Inr (Some m, nd')"
    using cy yit t ylc med ys(1,2) il cs1(1,2) cl ar
    by (simp add: splitChild_def Let_def setItem_def nd'_def cs_def
        lowerHalf_def upperHalf_def newNode_def)
  have its': "items nd' = map Some (take i L @ m # drop i L) @ butlast rest"
    using ys(3) its rest i len
    by (simp add: nd'_def butlast_append take_map drop_map)
  have csr: "cs = map Some (K[i := lowerHalf t y]) @ crest"
    using chs i lenK by (simp add: cs_def list_update_append map_update)
  have chs': "children nd' =
      map Some (take i K @ lowerHalf t y # upperHalf t y # drop (Suc i) K) @ butlast crest"
    using cs1(3) csr crest i lenK
    by (simp add: nd'_def butlast_append take_map drop_map take_Suc_conv_app_nth
        flip: map_update)
  have n': "node_n nd' = length (take i L @ m # drop i L)"
    using i len by (simp add: nd'_def)
  have k': "length (take i K @ lowerHalf t y # upperHalf t y # drop (Suc i) K) = Suc (node_n nd')"
    using i lenK by (simp add: nd'_def)
  have leaf': "\<not> isLeaf nd'" using int by (simp add: nd'_def)
  have "slotsOk nd'"
    using slotsOk_rep [OF its' n'] chs' k' by blast
  moreover have "lits nd' = take i L @ m # drop i L" by (rule lits_rep [OF its' n'])
  moreover have "kids nd' = take i K @ lowerHalf t y # upperHalf t y # drop (Suc i) K"
    by (rule kids_rep [OF leaf' chs' k'])
  moreover have "sized t nd'"
    using sz int room ys(2) cs1(2) by (simp add: sized_def nd'_def cs_def)
  moreover have "node_n nd' = node_n nd + 1" by (simp add: nd'_def)
  ultimately show ?thesis
    using run leaf' by (simp add: y_def m_def L_def K_def)
qed

section \<open>Reasoning about the traversal order\<close>

text \<open>\<open>blocks\<close> is the part of the traversal before a child: pairs of a child and the item
  after it.\<close>

fun blocks :: "'a list list \<Rightarrow> 'a list \<Rightarrow> 'a list" where
  "blocks (k # ks) (x # xs) = k @ x # blocks ks xs"
| "blocks _ _ = []"

lemma il_blocks:
  "length ks1 = length xs1 \<Longrightarrow> il (ks1 @ ks2) (xs1 @ xs2) = blocks ks1 xs1 @ il ks2 xs2"
  by (induction ks1 xs1 rule: list_induct2) auto

lemma il_cons_append: "il ((a @ b) # ks) xs = a @ il (b # ks) xs"
  by (cases xs) auto

lemma il_mid:
  "length ks1 = Suc (length xs1) \<Longrightarrow>
   il (ks1 @ ks2) (xs1 @ m # xs2) = il ks1 xs1 @ m # il ks2 xs2"
proof (induction xs1 arbitrary: ks1)
  case Nil
  then obtain k where "ks1 = [k]" by (cases ks1) auto
  then show ?case by simp
next
  case (Cons x xs1)
  then obtain k ks where ks: "ks1 = k # ks" "length ks = Suc (length xs1)"
    by (cases ks1) auto
  then show ?case using Cons.IH [of ks] by simp
qed

lemma blocks_snoc:
  "length ks = length xs \<Longrightarrow> blocks (ks @ [k]) (xs @ [x]) = blocks ks xs @ k @ [x]"
  by (induction ks xs rule: list_induct2) auto

lemma blocks_last:
  "length ks = length xs \<Longrightarrow> xs \<noteq> [] \<Longrightarrow> blocks ks xs \<noteq> [] \<and> last (blocks ks xs) = last xs"
proof (induction ks xs rule: list_induct2)
  case Nil
  then show ?case by simp
next
  case (Cons k ks x xs)
  then show ?case by (cases xs) auto
qed

lemma ascending_append: "ascending (xs @ ys) \<Longrightarrow> ascending xs \<and> ascending ys"
  by (simp add: ascending_def sorted_wrt_append)

lemma ascending_before_last:
  assumes "ascending (A @ B)" "A \<noteq> []" "fst (last A) < c"
  shows "\<forall>a\<in>set A. fst a < c"
proof
  fix a assume a: "a \<in> set A"
  have "ascending A" using assms(1) ascending_append by blast
  then have "ascending (butlast A @ [last A])" using assms(2) by simp
  then have "\<forall>b\<in>set (butlast A). fst b < fst (last A)"
    by (simp add: ascending_def sorted_wrt_append)
  moreover have "a \<in> set (butlast A) \<or> a = last A"
    using a assms(2) by (metis append_butlast_last_id in_set_conv_decomp rotate1.simps(2) set_ConsD set_rotate1)
  ultimately show "fst a < c" using assms(3) by auto
qed

lemma ascending_after_hd:
  assumes "ascending (A @ b # B)" "c < fst b"
  shows "\<forall>a\<in>set (b # B). c < fst a"
  using assms by (auto simp: ascending_def sorted_wrt_append)

lemma ascending_before:
  assumes "ascending (A @ b # B)"
  shows "\<forall>a\<in>set A. fst a < fst b"
  using assms by (auto simp: ascending_def sorted_wrt_append)

lemma ins_pre: "\<forall>a\<in>set pre. fst a < fst x \<Longrightarrow> ins x (pre @ ys) = pre @ ins x ys"
  by (induction pre) auto

lemma stored_pre:
  fixes x :: "('k::linorder, 'v) item"
  shows "\<forall>a\<in>set pre. fst a < fst x \<Longrightarrow> stored x (pre @ ys) = stored x ys"
  by (induction pre) (auto simp: stored_def)

lemma ins_post: "\<forall>b\<in>set post. fst x < fst b \<Longrightarrow> ins x (mid @ post) = ins x mid @ post"
  by (induction mid) (auto, cases post, auto)

lemma stored_post:
  fixes x :: "('k::linorder, 'v) item"
  shows "\<forall>b\<in>set post. fst x < fst b \<Longrightarrow> stored x (mid @ post) = stored x mid"
proof (induction mid)
  case Nil
  then have "\<not> (\<exists>b\<in>set post. fst b = fst x)" by auto
  then have "find (\<lambda>y. fst y = fst x) post = None" unfolding find_None_iff by blast
  then show ?case by (simp add: stored_def)
next
  case (Cons a mid)
  then show ?case by (auto simp: stored_def)
qed

lemma ins_hit:
  assumes "ascending (A @ y # B)" "fst y = fst x"
  shows "ins x (A @ y # B) = A @ x # B" "stored x (A @ y # B) = Some y"
proof -
  have pre: "\<forall>a\<in>set A. fst a < fst x" using ascending_before [OF assms(1)] assms(2) by simp
  show "ins x (A @ y # B) = A @ x # B" using ins_pre [OF pre] assms(2) by simp
  show "stored x (A @ y # B) = Some y" using stored_pre [OF pre] assms(2) by (simp add: stored_def)
qed

lemma ascending_ins: "ascending xs \<Longrightarrow> ascending (ins x xs)"
proof (induction xs)
  case Nil
  then show ?case by (simp add: ascending_def)
next
  case (Cons a xs)
  have set_ins: "\<And>ys. fst ` set (ins x ys) \<subseteq> insert (fst x) (fst ` set ys)"
  proof -
    fix ys show "fst ` set (ins x ys) \<subseteq> insert (fst x) (fst ` set ys)"
      by (induction ys) auto
  qed
  show ?case
  proof (cases "fst x < fst a \<or> fst x = fst a")
    case True
    then show ?thesis using Cons.prems by (auto simp: ascending_def)
  next
    case False
    then have "fst a < fst x" by auto
    moreover have "ascending (ins x xs)" using Cons by (simp add: ascending_def)
    moreover have "\<forall>k \<in> fst ` set (ins x xs). fst a < k"
    proof
      fix k assume "k \<in> fst ` set (ins x xs)"
      then have "k = fst x \<or> k \<in> fst ` set xs" using set_ins [of xs] by blast
      then show "fst a < k" using Cons.prems \<open>fst a < fst x\<close> by (auto simp: ascending_def)
    qed
    ultimately show ?thesis using False by (auto simp: ascending_def)
  qed
qed

lemma stored_None_iff:
  fixes x :: "('k::linorder, 'v) item"
  shows "stored x xs = None \<longleftrightarrow> (\<forall>y\<in>set xs. fst y \<noteq> fst x)"
  unfolding stored_def find_None_iff by blast

lemma stored_Some:
  fixes x :: "('k::linorder, 'v) item"
  shows "stored x xs = Some y \<Longrightarrow> y \<in> set xs \<and> fst y = fst x"
  unfolding stored_def by (induction xs) (auto split: if_splits)

lemma length_ins:
  "ascending xs \<Longrightarrow>
   length (ins x xs) = (if stored x xs = None then Suc (length xs) else length xs)"
proof (induction xs)
  case Nil
  then show ?case by (simp add: stored_def)
next
  case (Cons a xs)
  have asc: "ascending xs" and gt: "\<forall>y\<in>set xs. fst a < fst y"
    using Cons.prems by (auto simp: ascending_def)
  show ?case
  proof (cases "fst x < fst a")
    case True
    then have "\<forall>y\<in>set (a # xs). fst y \<noteq> fst x" using gt by auto
    then have "stored x (a # xs) = None" using stored_None_iff by blast
    then show ?thesis using True by simp
  next
    case False
    then show ?thesis using Cons.IH [OF asc] by (auto simp: stored_def)
  qed
qed

text \<open>The traversal of a node around its child \<open>j\<close>.\<close>

definition preOf :: "('k, 'v) node \<Rightarrow> nat \<Rightarrow> ('k, 'v) item list" where
  "preOf nd j = blocks (map inorder (take j (kids nd))) (take j (lits nd))"

definition postOf :: "('k, 'v) node \<Rightarrow> nat \<Rightarrow> ('k, 'v) item list" where
  "postOf nd j = il ([] # map inorder (drop (Suc j) (kids nd))) (drop j (lits nd))"

lemma il_at:
  assumes "length ks = Suc (length xs)" "j \<le> length xs"
  shows "il ks xs = blocks (take j ks) (take j xs) @ ks ! j @ il ([] # drop (Suc j) ks) (drop j xs)"
proof -
  have j: "j < length ks" using assms by simp
  have "il ks xs = il (take j ks @ ks ! j # drop (Suc j) ks) (take j xs @ drop j xs)"
    using j by (simp add: id_take_nth_drop [symmetric])
  also have "\<dots> = blocks (take j ks) (take j xs) @ il (ks ! j # drop (Suc j) ks) (drop j xs)"
    using assms j by (intro il_blocks) simp
  also have "il (ks ! j # drop (Suc j) ks) (drop j xs) =
             ks ! j @ il ([] # drop (Suc j) ks) (drop j xs)"
    using il_cons_append [of "ks ! j" "[]"] by simp
  finally show ?thesis .
qed

lemma inorder_at:
  assumes "slotsOk nd" "\<not> isLeaf nd" "j \<le> node_n nd"
  shows "inorder nd = preOf nd j @ inorder (kids nd ! j) @ postOf nd j"
proof -
  have l: "length (map inorder (kids nd)) = Suc (length (lits nd))" "j \<le> length (lits nd)"
    "j < length (kids nd)"
    using slotsOk_items(2) [OF assms(1)] slotsOk_children(2) [OF assms(1,2)] assms(3) by simp_all
  show ?thesis
    using il_at [OF l(1,2)] l(3)
    by (subst inorder.simps) (simp add: preOf_def postOf_def take_map drop_map)
qed

lemma postOf_Cons:
  assumes "slotsOk nd" "\<not> isLeaf nd" "j < node_n nd"
  shows "postOf nd j = lits nd ! j # il (map inorder (drop (Suc j) (kids nd))) (drop (Suc j) (lits nd))"
proof -
  have "j < length (lits nd)" using slotsOk_items(2) [OF assms(1)] assms(3) by simp
  then have "drop j (lits nd) = lits nd ! j # drop (Suc j) (lits nd)"
    by (simp add: Cons_nth_drop_Suc)
  then show ?thesis by (simp add: postOf_def)
qed

lemma postOf_last:
  assumes "slotsOk nd" "\<not> isLeaf nd"
  shows "postOf nd (node_n nd) = []"
  using slotsOk_items(2) [OF assms(1)] slotsOk_children(2) [OF assms]
  by (simp add: postOf_def)

lemma pre_bound:
  fixes x :: "('k::linorder, 'v) item"
  assumes "slotsOk nd" "\<not> isLeaf nd" "j \<le> node_n nd" "ascending (inorder nd)"
    and "0 < j \<Longrightarrow> fst (lits nd ! (j - 1)) < fst x"
  shows "\<forall>a\<in>set (preOf nd j). fst a < fst x"
proof (cases j)
  case 0
  then show ?thesis by (simp add: preOf_def)
next
  case (Suc j')
  have l: "length (lits nd) = node_n nd" "length (kids nd) = Suc (node_n nd)"
    using slotsOk_items(2) [OF assms(1)] slotsOk_children(2) [OF assms(1,2)] by simp_all
  have len: "length (map inorder (take j (kids nd))) = length (take j (lits nd))"
    using l assms(3) by simp
  have ne: "take j (lits nd) \<noteq> []" using Suc l assms(3) by auto
  have lst: "last (take j (lits nd)) = lits nd ! (j - 1)"
    using Suc l assms(3) by (simp add: take_Suc_conv_app_nth)
  have "preOf nd j \<noteq> []" "last (preOf nd j) = lits nd ! (j - 1)"
    using blocks_last [OF len ne] lst by (simp_all add: preOf_def)
  moreover have "ascending (preOf nd j @ (inorder (kids nd ! j) @ postOf nd j))"
    using inorder_at [OF assms(1-3)] assms(4) by simp
  ultimately show ?thesis
    using ascending_before_last [of "preOf nd j" _ "fst x"] assms(5) Suc by simp
qed

lemma post_bound:
  fixes x :: "('k::linorder, 'v) item"
  assumes "slotsOk nd" "\<not> isLeaf nd" "j \<le> node_n nd" "ascending (inorder nd)"
    and "j < node_n nd \<Longrightarrow> fst x < fst (lits nd ! j)"
  shows "\<forall>b\<in>set (postOf nd j). fst x < fst b"
proof (cases "j < node_n nd")
  case False
  then have "j = node_n nd" using assms(3) by simp
  then show ?thesis using postOf_last [OF assms(1,2)] by simp
next
  case True
  obtain B where B: "postOf nd j = lits nd ! j # B"
    using postOf_Cons [OF assms(1,2) True] by blast
  have "ascending ((preOf nd j @ inorder (kids nd ! j)) @ lits nd ! j # B)"
    using inorder_at [OF assms(1-3)] assms(4) B by simp
  then have "\<forall>a\<in>set (lits nd ! j # B). fst x < fst a"
    by (rule ascending_after_hd) (use assms(5) True in simp)
  then show ?thesis using B by simp
qed

lemma setChild_spec:
  assumes "slotsOk nd" "\<not> isLeaf nd" "j \<le> node_n nd"
  shows "slotsOk (setChild nd j c) \<and> kids (setChild nd j c) = (kids nd)[j := c] \<and>
         lits (setChild nd j c) = lits nd \<and> node_n (setChild nd j c) = node_n nd \<and>
         isLeaf (setChild nd j c) = isLeaf nd \<and> (sized t nd \<longrightarrow> sized t (setChild nd j c))"
proof -
  let ?nd = "setChild nd j c"
  note it = slotsOk_items [OF assms(1)]
  note ch = slotsOk_children [OF assms(1,2)]
  have its: "items ?nd = map Some (lits nd) @ drop (node_n nd) (items nd)"
    using it(1) by (simp add: setChild_def)
  have n: "node_n ?nd = length (lits nd)" using it(2) by (simp add: setChild_def)
  have leaf: "\<not> isLeaf ?nd" using assms(2) by (simp add: setChild_def)
  have "children ?nd = (map Some (kids nd) @ drop (Suc (node_n nd)) (children nd))[j := Some c]"
    using ch(1) by (simp add: setChild_def)
  then have chs: "children ?nd = map Some ((kids nd)[j := c]) @ drop (Suc (node_n nd)) (children nd)"
    using ch(2) assms(3) by (simp add: list_update_append map_update)
  have k: "length ((kids nd)[j := c]) = Suc (node_n ?nd)" using ch(2) by (simp add: setChild_def)
  have "slotsOk ?nd" using slotsOk_rep [OF its n] chs k by blast
  moreover have "kids ?nd = (kids nd)[j := c]" by (rule kids_rep [OF leaf chs k])
  moreover have "lits ?nd = lits nd" by (rule lits_rep [OF its n])
  moreover have "sized t nd \<longrightarrow> sized t ?nd" by (simp add: sized_def setChild_def)
  ultimately show ?thesis by (simp add: setChild_def)
qed

lemma inorder_setChild:
  assumes "slotsOk nd" "\<not> isLeaf nd" "j \<le> node_n nd"
  shows "inorder (setChild nd j c) = preOf nd j @ inorder c @ postOf nd j"
proof -
  note s = setChild_spec [OF assms, of c]
  have l: "j < length (kids nd)" using slotsOk_children(2) [OF assms(1,2)] assms(3) by simp
  have "inorder (setChild nd j c) =
        preOf (setChild nd j c) j @ inorder (kids (setChild nd j c) ! j) @ postOf (setChild nd j c) j"
    using s assms by (intro inorder_at) simp_all
  moreover have "preOf (setChild nd j c) j = preOf nd j" using s by (simp add: preOf_def)
  moreover have "postOf (setChild nd j c) j = postOf nd j" using s by (simp add: postOf_def)
  moreover have "kids (setChild nd j c) ! j = c" using s l by simp
  ultimately show ?thesis by simp
qed

section \<open>Insertion keeps the tree a B-tree\<close>

lemma replaceItem_spec:
  fixes x :: "('k::linorder, 'v) item"
  assumes ok: "slotsOk nd" and int: "\<not> isLeaf nd" and i: "i < node_n nd"
    and key: "fst (lits nd ! i) = fst x" and asc: "ascending (inorder nd)"
  defines "nd' \<equiv> Node (isLeaf nd) (node_n nd) ((items nd)[i := Some x]) (children nd)"
  shows "slotsOk nd' \<and> kids nd' = kids nd \<and> node_n nd' = node_n nd \<and> \<not> isLeaf nd' \<and>
         (sized t nd \<longrightarrow> sized t nd') \<and>
         inorder nd' = ins x (inorder nd) \<and> stored x (inorder nd) = Some (lits nd ! i) \<and>
         items nd ! i = Some (lits nd ! i)"
proof -
  note it = slotsOk_items [OF ok]
  note ch = slotsOk_children [OF ok int]
  have il: "i < length (lits nd)" using it(2) i by simp
  have "items nd' = (map Some (lits nd) @ drop (node_n nd) (items nd))[i := Some x]"
    using it(1) by (simp add: nd'_def)
  then have its: "items nd' = map Some ((lits nd)[i := x]) @ drop (node_n nd) (items nd)"
    using il by (simp add: list_update_append map_update)
  have n: "node_n nd' = length ((lits nd)[i := x])" using it(2) by (simp add: nd'_def)
  have leaf: "\<not> isLeaf nd'" using int by (simp add: nd'_def)
  have chs: "children nd' = map Some (kids nd) @ drop (Suc (node_n nd)) (children nd)"
    using ch(1) by (simp add: nd'_def)
  have k: "length (kids nd) = Suc (node_n nd')" using ch(2) by (simp add: nd'_def)
  have ok': "slotsOk nd'" using slotsOk_rep [OF its n] chs k by blast
  have kids': "kids nd' = kids nd" by (rule kids_rep [OF leaf chs k])
  have lits': "lits nd' = (lits nd)[i := x]" by (rule lits_rep [OF its n])
  have n': "node_n nd' = node_n nd" by (simp add: nd'_def)
  have sz: "sized t nd \<longrightarrow> sized t nd'" by (simp add: sized_def nd'_def)
  have nth: "items nd ! i = Some (lits nd ! i)"
    using it(1) il by (metis length_map nth_append nth_map)
  define R where "R = il (map inorder (drop (Suc i) (kids nd))) (drop (Suc i) (lits nd))"
  define A where "A = preOf nd i @ inorder (kids nd ! i)"
  have old: "inorder nd = A @ lits nd ! i # R"
    using inorder_at [OF ok int, of i] postOf_Cons [OF ok int i] i by (simp add: A_def R_def)
  have i': "i < node_n nd'" using i n' by simp
  have "postOf nd' i = x # R"
    using postOf_Cons [OF ok' leaf i'] kids' lits' il by (simp add: R_def)
  moreover have "preOf nd' i = preOf nd i" using kids' lits' by (simp add: preOf_def)
  ultimately have new: "inorder nd' = A @ x # R"
    using inorder_at [OF ok' leaf, of i] i' kids' by (simp add: A_def)
  have "ins x (inorder nd) = A @ x # R" "stored x (inorder nd) = Some (lits nd ! i)"
    using ins_hit [of A "lits nd ! i" R x] asc key old by simp_all
  then show ?thesis using ok' kids' n' leaf sz new nth by simp
qed

lemma il_split_child:
  assumes "length ks1 = length xs1"
  shows "il (ks1 @ (a @ m # b) # ks2) (xs1 @ xs2) = il (ks1 @ a # b # ks2) (xs1 @ m # xs2)"
proof -
  have "il ((a @ m # b) # ks2) xs2 = a @ m # il (b # ks2) xs2"
    using il_cons_append [of "a @ [m]" b ks2 xs2] by simp
  then show ?thesis using il_blocks [OF assms] by simp
qed

lemma inorder_halves:
  assumes ok: "slotsOk y" and sz: "sized t y" and full: "node_n y = 2 * t - 1" and t: "1 \<le> t"
  shows "inorder y = inorder (lowerHalf t y) @ lits y ! (t - 1) # inorder (upperHalf t y)"
proof -
  note lo = lowerHalf_spec [OF assms]
  note up = upperHalf_spec [OF assms]
  note fi = full_items [OF ok sz full]
  have tl: "t - 1 < length (lits y)" using fi(2) t by arith
  have L: "lits y = take (t - 1) (lits y) @ lits y ! (t - 1) # drop t (lits y)"
    using id_take_nth_drop [OF tl] t by simp
  show ?thesis
  proof (cases "isLeaf y")
    case True
    then have "kids y = []" by (simp add: kids_def)
    then show ?thesis
      using L lo up by (simp add: inorder.simps [of y] inorder.simps [of "lowerHalf t y"]
          inorder.simps [of "upperHalf t y"])
  next
    case False
    note fc = full_children [OF ok sz full False t]
    have K: "map inorder (kids y) = map inorder (take t (kids y)) @ map inorder (drop t (kids y))"
      by (simp flip: map_append)
    have len: "length (map inorder (take t (kids y))) = Suc (length (take (t - 1) (lits y)))"
      using fc(2) fi(2) t by simp
    have "inorder y = il (map inorder (take t (kids y)) @ map inorder (drop t (kids y)))
                         (take (t - 1) (lits y) @ lits y ! (t - 1) # drop t (lits y))"
      using K L by (subst inorder.simps) simp
    also have "\<dots> = il (map inorder (take t (kids y))) (take (t - 1) (lits y)) @
                     lits y ! (t - 1) # il (map inorder (drop t (kids y))) (drop t (lits y))"
      by (rule il_mid [OF len])
    finally show ?thesis
      using lo up by (simp add: inorder.simps [of "lowerHalf t y"]
          inorder.simps [of "upperHalf t y"])
  qed
qed

lemma inorder_splitChild:
  assumes ok: "slotsOk nd" and int: "\<not> isLeaf nd" and i: "i \<le> node_n nd"
    and yok: "slotsOk (kids nd ! i)" and ysz: "sized t (kids nd ! i)"
    and yfull: "node_n (kids nd ! i) = 2 * t - 1" and t: "1 \<le> t"
    and ok': "slotsOk nd'" and int': "\<not> isLeaf nd'"
    and lits': "lits nd' = take i (lits nd) @ lits (kids nd ! i) ! (t - 1) # drop i (lits nd)"
    and kids': "kids nd' = take i (kids nd) @ lowerHalf t (kids nd ! i) # upperHalf t (kids nd ! i)
                        # drop (Suc i) (kids nd)"
  shows "inorder nd' = inorder nd"
proof -
  define y where "y = kids nd ! i"
  note it = slotsOk_items [OF ok]
  note ch = slotsOk_children [OF ok int]
  have ik: "i < length (kids nd)" using ch(2) i by simp
  have len: "length (map inorder (take i (kids nd))) = length (take i (lits nd))"
    using it(2) ch(2) i by simp
  have "inorder nd = il (map inorder (take i (kids nd)) @ inorder y # map inorder (drop (Suc i) (kids nd)))
                        (take i (lits nd) @ drop i (lits nd))"
    using id_take_nth_drop [OF ik]
    by (subst inorder.simps) (metis append_take_drop_id list.simps(9) map_append y_def)
  also have "inorder y = inorder (lowerHalf t y) @ lits y ! (t - 1) # inorder (upperHalf t y)"
    using inorder_halves [OF yok ysz yfull t] by (simp add: y_def)
  also have "il (map inorder (take i (kids nd)) @
                 (inorder (lowerHalf t y) @ lits y ! (t - 1) # inorder (upperHalf t y)) #
                 map inorder (drop (Suc i) (kids nd)))
                (take i (lits nd) @ drop i (lits nd)) =
             il (map inorder (take i (kids nd)) @
                 inorder (lowerHalf t y) # inorder (upperHalf t y) #
                 map inorder (drop (Suc i) (kids nd)))
                (take i (lits nd) @ lits y ! (t - 1) # drop i (lits nd))"
    by (rule il_split_child [OF len])
  also have "\<dots> = inorder nd'"
    using lits' kids' by (subst inorder.simps [of nd']) (simp add: y_def)
  finally show ?thesis by simp
qed

lemma bt_kid: "bt t h nd \<Longrightarrow> c \<in> set (kids nd) \<Longrightarrow> bt t (h - 1) c \<and> t - 1 \<le> node_n c"
  by (subst (asm) bt.simps) (auto simp: kids_def split: if_splits)

lemma bt_local:
  "bt t h nd \<Longrightarrow> slotsOk nd \<and> sized t nd \<and> (isLeaf nd \<longleftrightarrow> h = 1) \<and> (\<not> isLeaf nd \<longrightarrow> 1 < h)"
  by (subst (asm) bt.simps) (auto split: if_splits)

lemma bt_nodeI:
  "slotsOk nd \<Longrightarrow> sized t nd \<Longrightarrow> \<not> isLeaf nd \<Longrightarrow> 1 < h \<Longrightarrow>
   (\<And>c. c \<in> set (kids nd) \<Longrightarrow> t - 1 \<le> node_n c \<and> bt t (h - 1) c) \<Longrightarrow> bt t h nd"
  by (subst bt.simps) auto

lemma bt_halves:
  assumes "bt t h y" "node_n y = 2 * t - 1" "1 \<le> t"
  shows "bt t h (lowerHalf t y)" "bt t h (upperHalf t y)"
proof -
  note l = bt_local [OF assms(1)]
  have ok: "slotsOk y" and sz: "sized t y" using l by simp_all
  note lo = lowerHalf_spec [OF ok sz assms(2,3)]
  note up = upperHalf_spec [OF ok sz assms(2,3)]
  have sub: "set (take t (kids y)) \<subseteq> set (kids y)" "set (drop t (kids y)) \<subseteq> set (kids y)"
    by (simp_all add: set_take_subset set_drop_subset)
  show "bt t h (lowerHalf t y)"
    using lo l sub(1) bt_kid [OF assms(1)] by (subst bt.simps) auto
  show "bt t h (upperHalf t y)"
    using up l sub(2) bt_kid [OF assms(1)] by (subst bt.simps) auto
qed

lemma compare_iff:
  fixes a :: "('k::linorder, 'v) item"
  shows "compare a b = lessThan_cmp \<longleftrightarrow> fst a < fst b"
    and "compare a b = equal_cmp \<longleftrightarrow> fst a = fst b"
    and "compare a b = greaterThan_cmp \<longleftrightarrow> fst b < fst a"
  by (auto simp: compare_def lessThan_cmp_def equal_cmp_def greaterThan_cmp_def)

definition routed ::
  "nat \<Rightarrow> nat \<Rightarrow> ('k::linorder, 'v) item \<Rightarrow> ('k, 'v) node \<Rightarrow> ('k, 'v) node \<Rightarrow> nat \<Rightarrow> bool" where
  "routed t h x nd nd1 j \<longleftrightarrow>
     slotsOk nd1 \<and> sized t nd1 \<and> \<not> isLeaf nd1 \<and> j \<le> node_n nd1 \<and>
     (\<forall>k\<in>set (kids nd1). t - 1 \<le> node_n k \<and> bt t (h - 1) k) \<and>
     node_n (kids nd1 ! j) < 2 * t - 1 \<and>
     inorder nd1 = inorder nd \<and> node_n nd \<le> node_n nd1 \<and>
     (\<forall>a\<in>set (preOf nd1 j). fst a < fst x) \<and>
     (\<forall>b\<in>set (postOf nd1 j). fst x < fst b)"

lemma insertStep_descend:
  assumes "scanItems x (items nd) (node_n nd) 0 = Inr r"
    and "r = Descend i \<or> (r = Exhausted \<and> i = node_n nd)"
  shows "insertStep t nd x =
     (case childAt nd i of
        Inl e \<Rightarrow> Inl e
      | Inr c \<Rightarrow>
          if node_n c = 2 * t - 1 then
            (case splitChild t i nd of
               Inl e \<Rightarrow> Inl e
             | Inr (median, nd') \<Rightarrow>
                 (case median of
                    None \<Rightarrow> Inl InvalidItemType
                  | Some m \<Rightarrow>
                      if compare x m = lessThan_cmp then Inr (Into nd' i)
                      else if compare x m = equal_cmp then
                        (case setItem (items nd') i (Some x) of
                           Inl e \<Rightarrow> Inl e
                         | Inr its \<Rightarrow>
                             Inr (Done median
                                    (Node (isLeaf nd') (node_n nd') its (children nd'))))
                      else if compare x m = greaterThan_cmp then Inr (Into nd' (i + 1))
                      else Inr (Into nd' i)))
          else Inr (Into nd i))"
  using assms by (auto simp: insertStep_def Let_def)

lemma insertStep_spec:
  fixes x :: "('k::linorder, 'v) item"
  assumes t: "2 \<le> t" and bt: "bt t h nd" and int: "\<not> isLeaf nd"
    and room: "node_n nd < 2 * t - 1" and asc: "ascending (inorder nd)"
  shows "(\<exists>nd'. insertStep t nd x = Inr (Done (stored x (inorder nd)) nd') \<and> bt t h nd' \<and>
            inorder nd' = ins x (inorder nd) \<and> stored x (inorder nd) \<noteq> None \<and>
            node_n nd \<le> node_n nd') \<or>
         (\<exists>nd1 j. insertStep t nd x = Inr (Into nd1 j) \<and> routed t h x nd nd1 j)"
proof -
  define L where "L = lits nd"
  define K where "K = kids nd"
  have t1: "1 \<le> t" using t by simp
  have ok: "slotsOk nd" and sz: "sized t nd" and h: "1 < h"
    using bt_local [OF bt] int by simp_all
  have kid: "\<And>c. c \<in> set K \<Longrightarrow> t - 1 \<le> node_n c \<and> bt t (h - 1) c"
    using bt_kid [OF bt] by (auto simp: K_def)
  note it = slotsOk_items [OF ok]
  note ch = slotsOk_children [OF ok int]
  have lenL: "length L = node_n nd" and lenK: "length K = Suc (node_n nd)"
    using it(2) ch(2) by (simp_all add: L_def K_def)
  obtain r where r: "scanItems x (items nd) (node_n nd) 0 = Inr r" and sc: "scanned x L r"
    using scanItems_scanned [of x L "drop (node_n nd) (items nd)"] it by (auto simp: L_def)
  show ?thesis
  proof (cases "\<exists>i. r = Found i")
    case True
    then obtain i where Found: "r = Found i" by blast
    then have i: "i < node_n nd" "fst (lits nd ! i) = fst x"
      using sc lenL by (simp_all add: scanned_def L_def)
    let ?nd = "Node (isLeaf nd) (node_n nd) ((items nd)[i := Some x]) (children nd)"
    note rp = replaceItem_spec [OF ok int i asc, where t = t]
    have "insertStep t nd x = Inr (Done (stored x (inorder nd)) ?nd)"
      using r Found rp by (simp add: insertStep_def)
    moreover have "bt t h ?nd"
      using rp sz h kid by (intro bt_nodeI) (auto simp: K_def)
    ultimately show ?thesis using rp by auto
  next
    case False
    define i where "i = (case r of Descend j \<Rightarrow> j | _ \<Rightarrow> node_n nd)"
    have ri: "r = Descend i \<or> (r = Exhausted \<and> i = node_n nd)"
      using False by (cases r) (auto simp: i_def)
    have i: "i \<le> node_n nd" and below: "\<forall>k<i. fst (L ! k) < fst x"
      and above: "i < node_n nd \<Longrightarrow> fst x < fst (L ! i)"
      using ri sc lenL by (auto simp: scanned_def)
    define c where "c = K ! i"
    have cK: "c \<in> set K" using i lenK by (simp add: c_def)
    have cbt: "bt t (h - 1) c" and cmin: "t - 1 \<le> node_n c" using kid [OF cK] by simp_all
    have cok: "slotsOk c" and csz: "sized t c" using bt_local [OF cbt] by simp_all
    have cy: "childAt nd i = Inr c" using childAt_kids [OF ok int i] by (simp add: c_def K_def)
    note step = insertStep_descend [OF r ri, of t]
    show ?thesis
    proof (cases "node_n c = 2 * t - 1")
      case False
      then have "insertStep t nd x = Inr (Into nd i)" using step cy by simp
      moreover have "node_n (kids nd ! i) < 2 * t - 1"
        using False csz by (simp add: sized_def c_def K_def)
      moreover have "\<forall>a\<in>set (preOf nd i). fst a < fst x"
        using below by (intro pre_bound [OF ok int i asc]) (simp add: L_def)
      moreover have "\<forall>b\<in>set (postOf nd i). fst x < fst b"
        using above by (intro post_bound [OF ok int i asc]) (simp add: L_def)
      ultimately have "routed t h x nd nd i"
        using ok sz int i kid by (simp add: routed_def K_def)
      then show ?thesis using \<open>insertStep t nd x = Inr (Into nd i)\<close> by blast
    next
      case True
      define m where "m = lits c ! (t - 1)"
      obtain nd1 where split: "splitChild t i nd = Inr (Some m, nd1)"
        and ok1: "slotsOk nd1" and sz1: "sized t nd1" and int1: "\<not> isLeaf nd1"
        and n1: "node_n nd1 = node_n nd + 1"
        and lits1: "lits nd1 = take i L @ m # drop i L"
        and kids1: "kids nd1 = take i K @ lowerHalf t c # upperHalf t c # drop (Suc i) K"
        using splitChild_spec [OF ok sz int room i] cok csz True t1
        by (auto simp: c_def K_def L_def m_def)
      have ino: "inorder nd1 = inorder nd"
        using inorder_splitChild [OF ok int i _ _ _ t1 ok1 int1] cok csz True lits1 kids1
        by (simp add: c_def K_def L_def m_def)
      have asc1: "ascending (inorder nd1)" using ino asc by simp
      note lo = lowerHalf_spec [OF cok csz True t1]
      note up = upperHalf_spec [OF cok csz True t1]
      note hv = bt_halves [OF cbt True t1]
      have kid1: "\<forall>k\<in>set (kids nd1). t - 1 \<le> node_n k \<and> bt t (h - 1) k"
      proof
        fix k assume "k \<in> set (kids nd1)"
        then have "k \<in> set (take i K) \<or> k = lowerHalf t c \<or> k = upperHalf t c \<or>
                   k \<in> set (drop (Suc i) K)"
          using kids1 by auto
        then have "k \<in> set K \<or> k = lowerHalf t c \<or> k = upperHalf t c"
          by (auto dest: in_set_takeD in_set_dropD)
        then show "t - 1 \<le> node_n k \<and> bt t (h - 1) k"
          using kid hv lo up by auto
      qed
      have ti: "length (take i L) = i" "length (take i K) = i" using i lenL lenK by simp_all
      have nth_i: "lits nd1 ! i = m" using lits1 ti by (simp add: nth_append)
      have nth_b: "0 < i \<Longrightarrow> lits nd1 ! (i - 1) = L ! (i - 1)"
        using lits1 ti by (simp add: nth_append)
      have nth_a: "i < node_n nd \<Longrightarrow> lits nd1 ! (i + 1) = L ! i"
        using lits1 ti lenL by (simp add: nth_append)
      have kid_i: "kids nd1 ! i = lowerHalf t c" using kids1 ti by (simp add: nth_append)
      have kid_i1: "kids nd1 ! (i + 1) = upperHalf t c" using kids1 ti by (simp add: nth_append)
      have small: "t - 1 < 2 * t - 1" using t by arith
      consider (lt) "fst x < fst m" | (eq) "fst x = fst m" | (gt) "fst m < fst x"
        using linorder_less_linear by blast
      then show ?thesis
      proof cases
        case lt
        then have run: "insertStep t nd x = Inr (Into nd1 i)"
          using step cy True split by (simp add: compare_iff)
        have i1: "i \<le> node_n nd1" using i n1 by simp
        have "\<forall>a\<in>set (preOf nd1 i). fst a < fst x"
          using below nth_b by (intro pre_bound [OF ok1 int1 i1 asc1]) simp
        moreover have "\<forall>b\<in>set (postOf nd1 i). fst x < fst b"
          using lt nth_i by (intro post_bound [OF ok1 int1 i1 asc1]) simp
        ultimately have "routed t h x nd nd1 i"
          using ok1 sz1 int1 i1 kid1 kid_i lo small ino n1 by (simp add: routed_def)
        then show ?thesis using run by blast
      next
        case eq
        have i1: "i < node_n nd1" using i n1 by simp
        have key: "fst (lits nd1 ! i) = fst x" using eq nth_i by simp
        let ?nd = "Node (isLeaf nd1) (node_n nd1) ((items nd1)[i := Some x]) (children nd1)"
        note rp = replaceItem_spec [OF ok1 int1 i1 key asc1, where t = t]
        have li: "i < length (items nd1)" using sz1 i1 by (simp add: sized_def)
        have st: "stored x (inorder nd) = Some m" using rp nth_i ino by simp
        have ng: "\<not> fst x < fst m" using eq by simp
        have run: "insertStep t nd x = Inr (Done (stored x (inorder nd)) ?nd)"
          using step cy True split eq ng li st by (simp add: compare_iff setItem_def)
        have "bt t h ?nd"
          using rp sz1 h kid1 by (intro bt_nodeI) auto
        then show ?thesis using run rp ino st n1 by auto
      next
        case gt
        then have ng: "\<not> fst x < fst m" "fst x \<noteq> fst m" by auto
        have run: "insertStep t nd x = Inr (Into nd1 (i + 1))"
          using step cy True split gt ng by (simp add: compare_iff)
        have i1: "i + 1 \<le> node_n nd1" using i n1 by simp
        have "\<forall>a\<in>set (preOf nd1 (i + 1)). fst a < fst x"
          using gt nth_i by (intro pre_bound [OF ok1 int1 i1 asc1]) simp
        moreover have "\<forall>b\<in>set (postOf nd1 (i + 1)). fst x < fst b"
          using above nth_a n1 by (intro post_bound [OF ok1 int1 i1 asc1]) simp
        ultimately have "routed t h x nd nd1 (i + 1)"
          using ok1 sz1 int1 i1 kid1 kid_i1 up small ino n1 by (simp add: routed_def)
        then show ?thesis using run by blast
      qed
    qed
  qed
qed


lemma inorder_leaf: "isLeaf nd \<Longrightarrow> inorder nd = lits nd"
  by (subst inorder.simps) (simp add: kids_def)

lemma node_insert_spec:
  fixes x :: "('k::linorder, 'v) item"
  assumes "2 \<le> t" "bt t h nd" "node_n nd < 2 * t - 1" "ascending (inorder nd)"
  shows "\<exists>nd'. node_insert t nd x = Inr (stored x (inorder nd), nd') \<and> bt t h nd' \<and>
           inorder nd' = ins x (inorder nd) \<and> node_n nd \<le> node_n nd'"
  using assms
proof (induction h arbitrary: nd)
  case 0
  then show ?case using bt_local [of t 0 nd] by auto
next
  case (Suc h)
  note l = bt_local [OF Suc.prems(2)]
  show ?case
  proof (cases "isLeaf nd")
    case True
    have asc: "ascending (lits nd)" using Suc.prems(4) inorder_leaf [OF True] by simp
    obtain nd' where nd': "insertLeaf nd x = Inr (stored x (lits nd), nd')"
      "slotsOk nd'" "sized t nd'" "isLeaf nd'" "lits nd' = ins x (lits nd)"
      "node_n nd \<le> node_n nd'"
      using insertLeaf_spec [OF _ _ True Suc.prems(3) asc] l by blast
    have "bt t (Suc h) nd'" using nd'(2-4) l True by (subst bt.simps) simp
    moreover have "node_insert t nd x = Inr (stored x (inorder nd), nd')"
      using nd'(1) True inorder_leaf [OF True] by (subst node_insert.simps) simp
    ultimately show ?thesis
      using nd'(4-6) inorder_leaf [OF True] inorder_leaf [of nd'] by auto
  next
    case False
    from insertStep_spec [OF Suc.prems(1,2) False Suc.prems(3,4), of x]
    show ?thesis
    proof (elim disjE exE conjE)
      fix nd'
      assume "insertStep t nd x = Inr (Done (stored x (inorder nd)) nd')"
        "bt t (Suc h) nd'" "inorder nd' = ins x (inorder nd)" "node_n nd \<le> node_n nd'"
      then show ?thesis using False by (subst node_insert.simps) simp
    next
      fix nd1 j
      assume step: "insertStep t nd x = Inr (Into nd1 j)" and rt: "routed t (Suc h) x nd nd1 j"
      define c where "c = kids nd1 ! j"
      have ok1: "slotsOk nd1" and sz1: "sized t nd1" and int1: "\<not> isLeaf nd1"
        and j: "j \<le> node_n nd1"
        and kid1: "\<forall>k\<in>set (kids nd1). t - 1 \<le> node_n k \<and> bt t h k"
        and croom: "node_n c < 2 * t - 1" and ino: "inorder nd1 = inorder nd"
        and n1: "node_n nd \<le> node_n nd1"
        and pre: "\<forall>a\<in>set (preOf nd1 j). fst a < fst x"
        and post: "\<forall>b\<in>set (postOf nd1 j). fst x < fst b"
        using rt by (simp_all add: routed_def c_def)
      have jk: "j < length (kids nd1)" using slotsOk_children(2) [OF ok1 int1] j by simp
      then have cin: "c \<in> set (kids nd1)" by (simp add: c_def)
      have cbt: "bt t h c" and cmin: "t - 1 \<le> node_n c" using kid1 cin by auto
      have dec: "inorder nd = preOf nd1 j @ inorder c @ postOf nd1 j"
        using inorder_at [OF ok1 int1 j] ino by (simp add: c_def)
      have casc: "ascending (inorder c)"
        using Suc.prems(4) dec ascending_append by metis
      obtain c' where c': "node_insert t c x = Inr (stored x (inorder c), c')" "bt t h c'"
        "inorder c' = ins x (inorder c)" "node_n c \<le> node_n c'"
        using Suc.IH [OF Suc.prems(1) cbt croom casc] by blast
      let ?nd = "setChild nd1 j c'"
      note sc = setChild_spec [OF ok1 int1 j, of c' t]
      have cy: "childAt nd1 j = Inr c" using childAt_kids [OF ok1 int1 j] by (simp add: c_def)
      have st: "stored x (inorder nd) = stored x (inorder c)"
        using dec stored_pre [OF pre] stored_post [OF post] by simp
      have run: "node_insert t nd x = Inr (stored x (inorder nd), ?nd)"
        using False step cy c'(1) st by (subst node_insert.simps) simp
      have "inorder ?nd = preOf nd1 j @ ins x (inorder c) @ postOf nd1 j"
        using inorder_setChild [OF ok1 int1 j] c'(3) by simp
      also have "\<dots> = ins x (inorder nd)"
        using dec ins_pre [OF pre] ins_post [OF post] by simp
      finally have ino': "inorder ?nd = ins x (inorder nd)" .
      have "bt t (Suc h) ?nd"
      proof (rule bt_nodeI)
        show "slotsOk ?nd" "sized t ?nd" "\<not> isLeaf ?nd" using sc sz1 int1 by simp_all
        show "1 < Suc h" using bt_local [OF Suc.prems(2)] False by simp
        fix k assume "k \<in> set (kids ?nd)"
        then have "k = c' \<or> k \<in> set (kids nd1)"
          using sc set_update_subset_insert [of "kids nd1" j c'] by auto
        then show "t - 1 \<le> node_n k \<and> bt t (Suc h - 1) k"
          using kid1 c'(2,4) cmin by auto
      qed
      moreover have "node_n nd \<le> node_n ?nd" using sc n1 by simp
      ultimately show ?thesis using run ino' by blast
    qed
  qed
qed

section \<open>The tree operations keep the invariant\<close>

lemma bt_height: "bt t h nd \<Longrightarrow> height nd = h"
proof (induction h arbitrary: nd)
  case 0
  then show ?case using bt_local [of t 0 nd] by auto
next
  case (Suc h)
  note l = bt_local [OF Suc.prems]
  show ?case
  proof (cases "isLeaf nd")
    case True
    then show ?thesis using l by (subst height.simps) simp
  next
    case False
    have "length (kids nd) = Suc (node_n nd)" using slotsOk_children(2) l False by blast
    then obtain c cs where k: "kids nd = c # cs" by (cases "kids nd") auto
    then have "bt t h c" using bt_kid [OF Suc.prems, of c] by simp
    then have "height c = h" by (rule Suc.IH)
    then show ?thesis using False k by (subst height.simps) simp
  qed
qed

lemma bt_nodes:
  "bt t h nd \<Longrightarrow> m \<in> set (nodes nd) \<Longrightarrow>
   node_n m \<le> 2 * t - 1 \<and> (m \<noteq> nd \<longrightarrow> t - 1 \<le> node_n m)"
proof (induction h arbitrary: nd)
  case 0
  then show ?case using bt_local [of t 0 nd] by auto
next
  case (Suc h)
  note l = bt_local [OF Suc.prems(1)]
  from Suc.prems(2) have "m = nd \<or> (\<exists>c\<in>set (kids nd). m \<in> set (nodes c))"
    by (subst (asm) nodes.simps) auto
  then show ?case
  proof
    assume "m = nd"
    then show ?thesis using l by (simp add: sized_def)
  next
    assume "\<exists>c\<in>set (kids nd). m \<in> set (nodes c)"
    then obtain c where c: "c \<in> set (kids nd)" "m \<in> set (nodes c)" by blast
    have cb: "bt t h c" "t - 1 \<le> node_n c" using bt_kid [OF Suc.prems(1) c(1)] by simp_all
    show ?thesis using Suc.IH [OF cb(1) c(2)] cb(2) by auto
  qed
qed

lemma bt_leafLevels: "bt t h nd \<Longrightarrow> set (leafLevels nd level) = {level + h - 1}"
proof (induction h arbitrary: nd level)
  case 0
  then show ?case using bt_local [of t 0 nd] by auto
next
  case (Suc h)
  note l = bt_local [OF Suc.prems]
  show ?case
  proof (cases "isLeaf nd")
    case True
    then show ?thesis using l by (subst leafLevels.simps) simp
  next
    case False
    have "length (kids nd) = Suc (node_n nd)" using slotsOk_children(2) l False by blast
    then have ne: "kids nd \<noteq> []" by auto
    have "\<And>c. c \<in> set (kids nd) \<Longrightarrow> set (leafLevels c (level + 1)) = {level + Suc h - 1}"
      using Suc.IH bt_kid [OF Suc.prems] l False by fastforce
    then show ?thesis using False ne by (subst leafLevels.simps) auto
  qed
qed


lemma growRoot_spec:
  assumes t: "2 \<le> t" and bt: "bt t h old" and full: "node_n old = 2 * t - 1"
  shows "\<exists>r. growRoot t old = Inr r \<and> bt t (Suc h) r \<and> \<not> isLeaf r \<and> node_n r = 1 \<and>
           lits r = [lits old ! (t - 1)] \<and> kids r = [lowerHalf t old, upperHalf t old] \<and>
           inorder r = inorder old"
proof -
  have t1: "1 \<le> t" using t by simp
  define r0 :: "('a, 'b) node" where "r0 = setChild (newNode t False) 0 old"
  have its: "items r0 = map Some [] @ replicate (2 * t - 1) None"
    by (simp add: r0_def setChild_def newNode_def)
  have n0: "node_n r0 = length ([] :: ('a, 'b) item list)"
    by (simp add: r0_def setChild_def newNode_def)
  have int0: "\<not> isLeaf r0" by (simp add: r0_def setChild_def newNode_def)
  have "replicate (2 * t) None = (None :: ('a, 'b) node option) # replicate (2 * t - 1) None"
    using t1 by (cases "2 * t") auto
  then have chs: "children r0 = map Some [old] @ replicate (2 * t - 1) None"
    by (simp add: r0_def setChild_def newNode_def)
  have k0: "length [old] = Suc (node_n r0)" using n0 by simp
  have ok0: "slotsOk r0" using slotsOk_rep [OF its n0] chs k0 by blast
  have lits0: "lits r0 = []" by (rule lits_rep [OF its n0])
  have kids0: "kids r0 = [old]" by (rule kids_rep [OF int0 chs k0])
  have sz0: "sized t r0" using t1 by (simp add: sized_def r0_def setChild_def newNode_def)
  have room0: "node_n r0 < 2 * t - 1" using n0 t by simp
  have i0: "0 \<le> node_n r0" by simp
  note lo = bt_local [OF bt]
  obtain r where split: "splitChild t 0 r0 = Inr (Some (lits old ! (t - 1)), r)"
    and ok: "slotsOk r" and sz: "sized t r" and int: "\<not> isLeaf r" and n: "node_n r = 1"
    and lits: "lits r = [lits old ! (t - 1)]"
    and kids: "kids r = [lowerHalf t old, upperHalf t old]"
    using splitChild_spec [OF ok0 sz0 int0 room0 i0] lo full t1 kids0 lits0 n0 by auto
  have "inorder r = inorder r0"
    using inorder_splitChild [OF ok0 int0 i0 _ _ _ t1 ok int] lo full kids0 lits0 lits kids
    by simp
  also have "inorder r0 = inorder old"
    using kids0 lits0 by (subst inorder.simps) simp
  finally have ino: "inorder r = inorder old" .
  note hv = bt_halves [OF bt full t1]
  note lh = lowerHalf_spec [OF _ _ full t1] upperHalf_spec [OF _ _ full t1]
  have "bt t (Suc h) r"
  proof (rule bt_nodeI [OF ok sz int])
    show "1 < Suc h" using lo by auto
    fix c assume "c \<in> set (kids r)"
    then have "c = lowerHalf t old \<or> c = upperHalf t old" using kids by auto
    then show "t - 1 \<le> node_n c \<and> bt t (Suc h - 1) c" using hv lh lo by auto
  qed
  moreover have "growRoot t old = Inr r"
    using split t1 by (simp add: growRoot_def Let_def r0_def newNode_def)
  ultimately show ?thesis using int n lits kids ino by blast
qed

lemma btree_insert_spec:
  fixes x :: "('k::linorder, 'v) item"
  assumes "btreeInv b"
  shows "\<exists>r r'. (if node_n (root b) = 2 * btree_t b - 1 then growRoot (btree_t b) (root b)
                  else Inr (root b)) = Inr r \<and>
           node_insert (btree_t b) r x = Inr (stored x (inorder (root b)), r') \<and>
           btree_insert b x =
             Inr (stored x (inorder (root b)),
                  b\<lparr>root := r',
                    len := (if stored x (inorder (root b)) = None then len b + 1 else len b)\<rparr>) \<and>
           bt (btree_t b) (if node_n (root b) = 2 * btree_t b - 1 then Suc (height (root b))
                           else height (root b)) r' \<and>
           inorder r' = ins x (inorder (root b))"
proof -
  define t where "t = btree_t b"
  define h where "h = height (root b)"
  have t: "2 \<le> t" and bt: "bt t h (root b)" and asc: "ascending (inorder (root b))"
    using assms by (simp_all add: btreeInv_def t_def h_def)
  define h' where "h' = (if node_n (root b) = 2 * t - 1 then Suc h else h)"
  have "\<exists>r. (if node_n (root b) = 2 * t - 1 then growRoot t (root b) else Inr (root b)) = Inr r \<and>
          bt t h' r \<and> node_n r < 2 * t - 1 \<and> inorder r = inorder (root b)"
  proof (cases "node_n (root b) = 2 * t - 1")
    case True
    then show ?thesis using growRoot_spec [OF t bt True] t by (auto simp: h'_def)
  next
    case False
    then show ?thesis using bt bt_local [OF bt] by (auto simp: h'_def sized_def)
  qed
  then obtain r where r: "(if node_n (root b) = 2 * t - 1 then growRoot t (root b)
                           else Inr (root b)) = Inr r"
    "bt t h' r" "node_n r < 2 * t - 1" "inorder r = inorder (root b)" by blast
  obtain r' where r': "node_insert t r x = Inr (stored x (inorder r), r')" "bt t h' r'"
    "inorder r' = ins x (inorder r)"
    using node_insert_spec [OF t r(2,3), of x] asc r(4) by auto
  have "btree_insert b x =
          Inr (stored x (inorder (root b)),
               b\<lparr>root := r',
                 len := (if stored x (inorder (root b)) = None then len b + 1 else len b)\<rparr>)"
    using r(1,4) r'(1) unfolding btree_insert_def t_def by simp
  then show ?thesis using r r' unfolding t_def h_def h'_def by auto
qed

lemma btreeInv_insert:
  fixes x :: "('k::linorder, 'v) item"
  assumes "btreeInv b" "btree_insert b x = Inr (prev, b')"
  shows "btreeInv b'" "btree_t b' = btree_t b" "inorder (root b') = ins x (inorder (root b))"
proof -
  from btree_insert_spec [OF assms(1), of x] assms(2) obtain h' where
    b': "bt (btree_t b) h' (root b')" "inorder (root b') = ins x (inorder (root b))"
    "btree_t b' = btree_t b"
    by auto
  have "ascending (ins x (inorder (root b)))"
    using assms(1) by (intro ascending_ins) (simp add: btreeInv_def)
  then show "btreeInv b'"
    using b' assms(1) bt_height [OF b'(1)] by (simp add: btreeInv_def)
  show "btree_t b' = btree_t b" "inorder (root b') = ins x (inorder (root b))"
    using b' by simp_all
qed

lemma len_small:
  fixes t :: "64 word"
  assumes "2 \<le> sint t" "sint t < 2 ^ 62"
  shows "sint (2 * t - 1) = 2 * sint t - 1"
proof -
  have a: "sint (2 * t) = 2 * sint t"
    using assms by (simp add: sint_word_ariths signed_take_bit_int_eq_self)
  show ?thesis
    using assms a by (simp add: sint_word_ariths signed_take_bit_int_eq_self)
qed

lemma len_large:
  fixes t :: "64 word"
  assumes "2 ^ 62 \<le> sint t"
  shows "sint (2 * t - 1) < 0 \<or> sint (2 * t - 1) = 2 ^ 63 - 1"
proof -
  have "signed_take_bit 63 (signed_take_bit 63 (2 * sint t) - signed_take_bit 63 1) =
        signed_take_bit (63 :: nat) (2 * sint t - 1)"
    by (rule signed_take_bit_diff)
  then have eq: "sint (2 * t - 1) = signed_take_bit 63 (2 * sint t - 1)"
    by (simp add: sint_word_ariths)
  show ?thesis
  proof (cases "sint t = 2 ^ 62")
    case True
    then show ?thesis unfolding eq by (simp add: signed_take_bit_int_eq_self)
  next
    case False
    then have "2 ^ 63 \<le> 2 * sint t - 1" using assms by simp
    then have "signed_take_bit 63 (2 * sint t - 1) \<le> 2 * sint t - 1 - 2 ^ Suc 63"
      by (rule signed_take_bit_int_less_eq)
    moreover have "(2 :: int) ^ Suc 63 = 2 * 2 ^ 63" by (rule power_Suc)
    moreover have "sint t < 2 ^ 63" using sint_lt [of t] by simp
    ultimately have "signed_take_bit 63 (2 * sint t - 1) < (0 :: int)" by linarith
    then show ?thesis unfolding eq by blast
  qed
qed

lemma newBTree_ok:
  assumes "2 \<le> sint t" "sint t < 2 ^ 62" "2 * sint t - 1 \<le> int maxLen"
  shows "newBTree maxLen t =
           Inr \<lparr>root = newNode (nat (sint t)) True, btree_t = nat (sint t), len = 0\<rparr>"
  using assms len_small [OF assms(1,2)] by (simp add: newBTree_def)

lemma btreeInv_new:
  assumes "newBTree maxLen t = Inr (b :: ('k::linorder, 'v) btree)"
  shows "btreeInv b" "inorder (root b) = []" "int (btree_t b) = sint t" "len b = 0"
    "2 \<le> sint t"
proof -
  have t: "2 \<le> sint t"
    and b: "b = \<lparr>root = newNode (nat (sint t)) True, btree_t = nat (sint t), len = 0\<rparr>"
    using assms by (auto simp: newBTree_def split: if_splits)
  have its: "items (root b) = map Some [] @ replicate (2 * nat (sint t) - 1) None"
    and n: "node_n (root b) = length ([] :: ('k, 'v) item list)" and leaf: "isLeaf (root b)"
    by (simp_all add: b newNode_def)
  have "slotsOk (root b)" using slotsOk_rep [OF its n] leaf by blast
  moreover have "sized (nat (sint t)) (root b)" by (simp add: b newNode_def sized_def)
  ultimately have "bt (nat (sint t)) 1 (root b)" using leaf by (subst bt.simps) simp
  moreover have ino: "inorder (root b) = []"
    using inorder_leaf [OF leaf] lits_rep [OF its n] by simp
  ultimately show "btreeInv b"
    using t bt_height [of "nat (sint t)" 1 "root b"]
    by (simp add: btreeInv_def b ascending_def)
  show "inorder (root b) = []" by (rule ino)
  show "int (btree_t b) = sint t" "len b = 0" using t by (simp_all add: b)
  show "2 \<le> sint t" by (rule t)
qed

lemma insertAll_spec:
  fixes xs :: "('k::linorder, 'v) item list"
  assumes "btreeInv b"
  shows "\<exists>b'. insertAll b xs = Inr b' \<and> btreeInv b' \<and> btree_t b' = btree_t b \<and>
           inorder (root b') = fold ins xs (inorder (root b))"
  using assms
proof (induction xs arbitrary: b)
  case Nil
  then show ?case by simp
next
  case (Cons x xs)
  obtain prev b1 where b1: "btree_insert b x = Inr (prev, b1)"
    using btree_insert_spec [OF Cons.prems, of x] by auto
  note inv = btreeInv_insert [OF Cons.prems b1]
  show ?case using Cons.IH [OF inv(1)] b1 inv(2,3) by auto
qed

lemma ascending_unique:
  fixes y :: "('k::linorder, 'v) item"
  assumes "ascending xs" "y \<in> set xs" "y' \<in> set xs" "fst y = fst y'"
  shows "y = y'"
proof -
  have "distinct (map fst xs)"
    using assms(1) by (simp add: ascending_def strict_sorted_iff)
  then have "inj_on fst (set xs)" by (simp add: distinct_map)
  then show ?thesis using assms(2-4) by (auto dest: inj_onD)
qed

lemma stored_present:
  fixes x :: "('k::linorder, 'v) item"
  assumes "ascending xs" "y \<in> set xs" "fst y = fst x"
  shows "stored x xs = Some y"
proof -
  have "stored x xs \<noteq> None" using assms(2,3) stored_None_iff by blast
  then obtain y' where y': "stored x xs = Some y'" by auto
  then have "y' \<in> set xs" "fst y' = fst x" using stored_Some by blast+
  then show ?thesis using ascending_unique [OF assms(1,2)] assms(3) y' by auto
qed

section \<open>The checker on well-formed trees\<close>

lemma shaped_kid: "shaped nd \<Longrightarrow> c \<in> set (kids nd) \<Longrightarrow> shaped c"
  by (subst (asm) shaped.simps) simp

lemma shaped_ok: "shaped nd \<Longrightarrow> slotsOk nd"
  by (subst (asm) shaped.simps) simp

lemma bt_shaped: "bt t h nd \<Longrightarrow> shaped nd"
proof (induction h arbitrary: nd)
  case 0
  then show ?case using bt_local [of t 0 nd] by auto
next
  case (Suc h)
  show ?case
    using bt_local [OF Suc.prems] bt_kid [OF Suc.prems] Suc.IH
    by (subst shaped.simps) auto
qed

lemma nth_lits:
  assumes "slotsOk nd" "i < node_n nd"
  shows "i < length (items nd)" "items nd ! i = Some (lits nd ! i)"
proof -
  note it = slotsOk_items [OF assms(1)]
  show "i < length (items nd)" using assms by (simp add: slotsOk_def)
  show "items nd ! i = Some (lits nd ! i)"
    using it assms(2) by (metis length_map nth_append nth_map)
qed

lemma traverseItemsFrom_spec:
  "shaped nd \<Longrightarrow> i \<le> node_n nd \<Longrightarrow>
   traverseItemsFrom nd i =
     Inr (map Some (il (map inorder (drop i (kids nd))) (drop i (lits nd))))"
proof (induction nd i rule: traverseItemsFrom.induct)
  case (1 nd i)
  note ok = shaped_ok [OF "1.prems"(1)]
  note it = slotsOk_items [OF ok]
  show ?case
  proof (cases "isLeaf nd")
    case True
    then have K: "kids nd = []" by (simp add: kids_def)
    show ?thesis
    proof (cases "i < node_n nd")
      case lt: True
      have "traverseItemsFrom nd (i + 1) =
              Inr (map Some (il (map inorder (drop (i + 1) (kids nd))) (drop (i + 1) (lits nd))))"
        using "1.IH"(2) [OF lt _ _ "1.prems"(1)] True lt nth_lits [OF ok lt] by simp
      moreover have "drop i (lits nd) = lits nd ! i # drop (Suc i) (lits nd)"
        using lt it(2) by (simp add: Cons_nth_drop_Suc)
      ultimately show ?thesis
        using True lt nth_lits [OF ok lt] K
        by (subst traverseItemsFrom.simps) simp
    next
      case False
      then show ?thesis using True K it(2) "1.prems"(2)
        by (subst traverseItemsFrom.simps) simp
    qed
  next
    case False
    note ch = slotsOk_children [OF ok False]
    have ik: "i < length (kids nd)" using ch(2) "1.prems"(2) by simp
    define c where "c = kids nd ! i"
    have cy: "childAt nd i = Inr c" using childAt_kids [OF ok False "1.prems"(2)] by (simp add: c_def)
    have cs: "shaped c" using shaped_kid [OF "1.prems"(1)] ik by (simp add: c_def)
    have dk: "drop i (kids nd) = c # drop (Suc i) (kids nd)"
      using ik by (simp add: Cons_nth_drop_Suc c_def)
    show ?thesis
    proof (cases "i < node_n nd")
      case lt: True
      have c0: "traverseItemsFrom c 0 = Inr (map Some (inorder c))"
        using "1.IH"(1) [OF lt False cy cs] by (simp add: inorder.simps [of c])
      have "traverseItemsFrom nd (i + 1) =
              Inr (map Some (il (map inorder (drop (i + 1) (kids nd))) (drop (i + 1) (lits nd))))"
        using "1.IH"(2) [OF lt _ _ "1.prems"(1)] False lt nth_lits [OF ok lt] cy c0 by simp
      moreover have "drop i (lits nd) = lits nd ! i # drop (Suc i) (lits nd)"
        using lt it(2) by (simp add: Cons_nth_drop_Suc)
      ultimately show ?thesis
        using False lt nth_lits [OF ok lt] cy c0 dk
        by (subst traverseItemsFrom.simps) simp
    next
      case ge: False
      have c0: "traverseItemsFrom c 0 = Inr (map Some (inorder c))"
        using "1.IH"(3) [OF ge False cy cs] by (simp add: inorder.simps [of c])
      have "i = node_n nd" using ge "1.prems"(2) by simp
      then show ?thesis
        using False ge cy c0 dk it(2) ch(2)
        by (subst traverseItemsFrom.simps) simp
    qed
  qed
qed


lemma traverseNodesFrom_spec:
  "shaped nd \<Longrightarrow> \<not> isLeaf nd \<Longrightarrow>
   traverseNodesFrom nd i = Inr (concat (map nodes (drop i (kids nd))))"
proof (induction nd i rule: traverseNodesFrom.induct)
  case (1 nd i)
  note ok = shaped_ok [OF "1.prems"(1)]
  note ch = slotsOk_children [OF ok "1.prems"(2)]
  show ?case
  proof (cases "i < node_n nd + 1")
    case False
    then show ?thesis using ch(2) by (subst traverseNodesFrom.simps) simp
  next
    case True
    then have i: "i \<le> node_n nd" and ik: "i < length (kids nd)" using ch(2) by simp_all
    define c where "c = kids nd ! i"
    have cy: "childAt nd i = Inr c"
      using childAt_kids [OF ok "1.prems"(2) i] by (simp add: c_def)
    have cs: "shaped c" using shaped_kid [OF "1.prems"(1)] ik by (simp add: c_def)
    have dk: "drop i (kids nd) = c # drop (Suc i) (kids nd)"
      using ik by (simp add: Cons_nth_drop_Suc c_def)
    have sub: "(if \<not> isLeaf c then traverseNodesFrom c 0 else Inr []) =
               Inr (concat (map nodes (kids c)))"
    proof (cases "isLeaf c")
      case True
      then show ?thesis by (simp add: kids_def)
    next
      case False
      then show ?thesis using "1.IH"(1) [OF \<open>i < node_n nd + 1\<close> cy False cs False] by simp
    qed
    have rest: "traverseNodesFrom nd (i + 1) = Inr (concat (map nodes (drop (i + 1) (kids nd))))"
      using "1.IH"(2) [OF True cy sub "1.prems"] .
    show ?thesis
      using True cy sub rest dk
      by (subst traverseNodesFrom.simps) (simp add: nodes.simps [of c])
  qed
qed

lemma traverseHeightFrom_spec:
  "shaped nd \<Longrightarrow> \<not> isLeaf nd \<Longrightarrow>
   traverseHeightFrom nd level i =
     Inr (concat (map (\<lambda>c. leafLevels c (level + 1)) (drop i (kids nd))))"
proof (induction nd level i rule: traverseHeightFrom.induct)
  case (1 nd level i)
  note ok = shaped_ok [OF "1.prems"(1)]
  note ch = slotsOk_children [OF ok "1.prems"(2)]
  show ?case
  proof (cases "i \<le> node_n nd")
    case False
    then show ?thesis using ch(2) by (subst traverseHeightFrom.simps) simp
  next
    case True
    then have ik: "i < length (kids nd)" using ch(2) by simp
    define c where "c = kids nd ! i"
    have cy: "childAt nd i = Inr c"
      using childAt_kids [OF ok "1.prems"(2) True] by (simp add: c_def)
    have cs: "shaped c" using shaped_kid [OF "1.prems"(1)] ik by (simp add: c_def)
    have dk: "drop i (kids nd) = c # drop (Suc i) (kids nd)"
      using ik by (simp add: Cons_nth_drop_Suc c_def)
    have sub: "(if isLeaf c then Inr [level + 1] else traverseHeightFrom c (level + 1) 0) =
               Inr (leafLevels c (level + 1))"
    proof (cases "isLeaf c")
      case True
      then show ?thesis by (simp add: leafLevels.simps [of c])
    next
      case False
      then show ?thesis
        using "1.IH"(1) [OF True cy False cs False] by (simp add: leafLevels.simps [of c])
    qed
    have rest: "traverseHeightFrom nd level (i + 1) =
                  Inr (concat (map (\<lambda>c. leafLevels c (level + 1)) (drop (i + 1) (kids nd))))"
      using "1.IH"(2) [OF True cy sub "1.prems"] .
    show ?thesis
      using True cy sub rest dk by (subst traverseHeightFrom.simps) simp
  qed
qed

lemma traverseHeight_spec: "shaped nd \<Longrightarrow> traverseHeight nd level = Inr (leafLevels nd level)"
  using traverseHeightFrom_spec [of nd level 0]
  by (simp add: traverseHeight_def leafLevels.simps [of nd])

lemma leafLevels_nonempty: "shaped nd \<Longrightarrow> leafLevels nd level \<noteq> []"
proof (induction nd level rule: leafLevels.induct)
  case (1 nd level)
  show ?case
  proof (cases "isLeaf nd")
    case True
    then show ?thesis by (subst leafLevels.simps) simp
  next
    case False
    have "length (kids nd) = Suc (node_n nd)"
      using slotsOk_children(2) [OF shaped_ok [OF "1.prems"] False] .
    then obtain c cs where k: "kids nd = c # cs" by (cases "kids nd") auto
    then have "leafLevels c (level + 1) \<noteq> []"
      using "1.IH" [OF False, of c] shaped_kid [OF "1.prems", of c] by simp
    then show ?thesis using False k by (subst leafLevels.simps) simp
  qed
qed

lemma checkAscending_spec:
  fixes xs :: "('k::linorder, 'v) item list"
  shows "\<exists>r. checkAscending (map Some xs) = Inr r \<and> (r = None \<longleftrightarrow> ascending xs) \<and>
           (case r of
              None \<Rightarrow> True
            | Some (DuplicateItems a c) \<Rightarrow> (a, c) \<in> set (zip xs (tl xs)) \<and> fst a = fst c
            | Some (NotAscending a c) \<Rightarrow> (a, c) \<in> set (zip xs (tl xs)) \<and> fst c < fst a
            | Some _ \<Rightarrow> False)"
proof (induction xs rule: induct_list012)
  case 1
  then show ?case by (simp add: ascending_def)
next
  case (2 x)
  then show ?case by (simp add: ascending_def)
next
  case (3 a c zs)
  then obtain r where r: "checkAscending (map Some (c # zs)) = Inr r"
    "r = None \<longleftrightarrow> ascending (c # zs)"
    "(case r of
              None \<Rightarrow> True
            | Some (DuplicateItems a' c') \<Rightarrow> (a', c') \<in> set (zip (c # zs) (tl (c # zs))) \<and> fst a' = fst c'
            | Some (NotAscending a' c') \<Rightarrow> (a', c') \<in> set (zip (c # zs) (tl (c # zs))) \<and> fst c' < fst a'
            | Some _ \<Rightarrow> False)"
    by blast
  have asc: "ascending (a # c # zs) \<longleftrightarrow> fst a < fst c \<and> ascending (c # zs)"
    by (auto simp: ascending_def)
  consider (eq) "fst c = fst a" | (lt) "fst c < fst a" | (gt) "fst a < fst c"
    using linorder_less_linear by blast
  then show ?case
  proof cases
    case eq
    then show ?thesis using asc by (simp add: compare_iff)
  next
    case lt
    then have "fst c \<noteq> fst a" "\<not> fst a < fst c" by auto
    then show ?thesis using lt asc by (simp add: compare_iff)
  next
    case gt
    then have ng: "fst c \<noteq> fst a" "\<not> fst c < fst a" by auto
    have run: "checkAscending (map Some (a # c # zs)) = Inr r"
      using r(1) ng by (simp add: compare_iff)
    have "(case r of
              None \<Rightarrow> True
            | Some (DuplicateItems a' c') \<Rightarrow>
                (a', c') \<in> set (zip (a # c # zs) (tl (a # c # zs))) \<and> fst a' = fst c'
            | Some (NotAscending a' c') \<Rightarrow>
                (a', c') \<in> set (zip (a # c # zs) (tl (a # c # zs))) \<and> fst c' < fst a'
            | Some _ \<Rightarrow> False)"
      using r(3) by (auto split: option.splits violation.splits)
    then show ?thesis using run r(2) asc gt by simp
  qed
qed




lemma checkInvariances_pass:
  fixes b :: "('k::linorder, 'v) btree"
  assumes "btreeInv b"
  shows "checkInvariances b = Inr (None, b)"
proof -
  define t where "t = btree_t b"
  define h where "h = height (root b)"
  have bt: "bt t h (root b)" and asc: "ascending (inorder (root b))"
    using assms by (simp_all add: btreeInv_def t_def h_def)
  have sh: "shaped (root b)" using bt_shaped [OF bt] .
  have its: "traverseItemsFrom (root b) 0 = Inr (map Some (inorder (root b)))"
    using traverseItemsFrom_spec [OF sh, of 0] by (simp add: inorder.simps [of "root b"])
  have ca: "checkAscending (map Some (inorder (root b))) = Inr None"
    using checkAscending_spec [of "inorder (root b)"] asc by auto
  have t2: "2 \<le> t" using assms by (simp add: btreeInv_def t_def)
  have rootn: "\<not> int (node_n (root b)) > 2 * int t - 1"
    using bt_local [OF bt] t2 by (auto simp: sized_def)
  have ns: "(if \<not> isLeaf (root b) then traverseNodesFrom (root b) 0 else Inr []) =
            Inr (concat (map nodes (kids (root b))))"
    using traverseNodesFrom_spec [OF sh, of 0] by (simp add: kids_def)
  have "\<And>m. m \<in> set (concat (map nodes (kids (root b)))) \<Longrightarrow>
          \<not> (int (node_n m) < int t - 1 \<or> int (node_n m) > 2 * int t - 1)"
  proof -
    fix m assume "m \<in> set (concat (map nodes (kids (root b))))"
    then obtain c where c: "c \<in> set (kids (root b))" "m \<in> set (nodes c)" by auto
    have "bt t (h - 1) c" "t - 1 \<le> node_n c" using bt_kid [OF bt c(1)] by simp_all
    then show "\<not> (int (node_n m) < int t - 1 \<or> int (node_n m) > 2 * int t - 1)"
      using bt_nodes [of t "h - 1" c m] c(2) t2 by auto
  qed
  then have fl: "filter (\<lambda>m. int (node_n m) < int t - 1 \<or> int (node_n m) > 2 * int t - 1)
                   (concat (map nodes (kids (root b)))) = []"
    by (simp add: filter_empty_conv)
  have hs: "traverseHeight (root b) 1 = Inr (leafLevels (root b) 1)"
    by (rule traverseHeight_spec [OF sh])
  obtain h0 rest where ll: "leafLevels (root b) 1 = h0 # rest"
    using leafLevels_nonempty [OF sh, of 1] by (cases "leafLevels (root b) 1") auto
  have "set (leafLevels (root b) 1) = {1 + h - 1}" by (rule bt_leafLevels [OF bt])
  then have "\<forall>x\<in>set (leafLevels (root b) 1). x = h0" using ll by auto
  then have fn: "find (\<lambda>x. x \<noteq> h0) (leafLevels (root b) 1) = None"
    by (simp add: find_None_iff)
  show ?thesis
    using its ca rootn ns fl hs ll fn by (simp add: checkInvariances_def t_def)
qed

section \<open>Construction\<close>

text \<open>
  C8, as first stated: \<open>newBTree\<close> halts for every minimum degree below 2 and succeeds
  for every minimum degree of at least 2. The second half fails: at \<open>t = 2^62\<close> the length
  \<open>2*t-1\<close> of the root's item array is \<open>2^63-1\<close>, which no runtime allocates
  (\<open>2^44\<close> items is the bound of the Go runtime on 64-bit Linux), and \<open>make\<close> panics.
\<close>

theorem newBTree_huge_degree:
  "2 \<le> sint (2 ^ 62 :: 64 word) \<and>
   (newBTree (2 ^ 44) (2 ^ 62) :: error + (int, unit) btree) = Inl LenOutOfRange"
  by (simp add: newBTree_def)

text \<open>
  C8. \<open>newBTree\<close> halts for every minimum degree below 2 (0 and 1 among them) and
  produces no tree. For every minimum degree \<open>t \<ge> 2\<close> whose root array of \<open>2t-1\<close> items
  can be allocated (\<open>t < 2^62\<close> and \<open>2t-1 \<le> maxLen\<close>) it returns a tree whose root is an
  empty leaf (no item, no child slot in use) and whose \<open>len\<close> is zero. For every other
  \<open>t \<ge> 2\<close> it halts in \<open>make\<close> and produces no tree.
\<close>

theorem newBTree_guard:
  "(sint t < 2 \<longrightarrow> (newBTree maxLen t :: error + ('k, 'v) btree) = Inl InvalidMinDegree) \<and>
   (2 \<le> sint t \<and> sint t < 2 ^ 62 \<and> 2 * sint t - 1 \<le> int maxLen \<longrightarrow>
      (\<exists>b :: ('k, 'v) btree. newBTree maxLen t = Inr b \<and> isLeaf (root b) \<and>
         node_n (root b) = 0 \<and> children (root b) = [] \<and>
         list_all (\<lambda>s. s = None) (items (root b)) \<and>
         len b = 0 \<and> int (btree_t b) = sint t)) \<and>
   (2 \<le> sint t \<and> sint t < 2 ^ 62 \<and> int maxLen < 2 * sint t - 1 \<longrightarrow>
      (newBTree maxLen t :: error + ('k, 'v) btree) = Inl LenOutOfRange) \<and>
   (2 ^ 62 \<le> sint t \<and> int maxLen < 2 ^ 63 - 1 \<longrightarrow>
      (newBTree maxLen t :: error + ('k, 'v) btree) = Inl LenOutOfRange)"
proof (intro conjI impI)
  assume "sint t < 2"
  then show "(newBTree maxLen t :: error + ('k, 'v) btree) = Inl InvalidMinDegree"
    by (simp add: newBTree_def)
next
  assume a: "2 \<le> sint t \<and> sint t < 2 ^ 62 \<and> 2 * sint t - 1 \<le> int maxLen"
  then have "(newBTree maxLen t :: error + ('k, 'v) btree) =
               Inr \<lparr>root = newNode (nat (sint t)) True, btree_t = nat (sint t), len = 0\<rparr>"
    by (intro newBTree_ok) simp_all
  then show "\<exists>b :: ('k, 'v) btree. newBTree maxLen t = Inr b \<and> isLeaf (root b) \<and>
         node_n (root b) = 0 \<and> children (root b) = [] \<and>
         list_all (\<lambda>s. s = None) (items (root b)) \<and>
         len b = 0 \<and> int (btree_t b) = sint t"
    using a by (simp add: newNode_def list_all_iff)
next
  assume a: "2 \<le> sint t \<and> sint t < 2 ^ 62 \<and> int maxLen < 2 * sint t - 1"
  then have "sint (2 * t - 1) = 2 * sint t - 1" by (intro len_small) simp_all
  then show "(newBTree maxLen t :: error + ('k, 'v) btree) = Inl LenOutOfRange"
    using a by (simp add: newBTree_def)
next
  assume a: "2 ^ 62 \<le> sint t \<and> int maxLen < 2 ^ 63 - 1"
  then have "sint (2 * t - 1) < 0 \<or> sint (2 * t - 1) = 2 ^ 63 - 1"
    by (intro len_large) simp
  moreover have "\<not> sint t < 2" using a by simp
  ultimately show "(newBTree maxLen t :: error + ('k, 'v) btree) = Inl LenOutOfRange"
    using a by (auto simp: newBTree_def)
qed

theorem newBTree_guard_witness:
  "(newBTree (2 ^ 44) 0 :: error + (int, unit) btree) = Inl InvalidMinDegree \<and>
   (newBTree (2 ^ 44) 1 :: error + (int, unit) btree) = Inl InvalidMinDegree \<and>
   (newBTree (2 ^ 44) (- 3) :: error + (int, unit) btree) = Inl InvalidMinDegree \<and>
   (\<exists>b :: (int, unit) btree. newBTree (2 ^ 44) 2 = Inr b \<and> isLeaf (root b) \<and>
      node_n (root b) = 0 \<and> len b = 0 \<and> btree_t b = 2) \<and>
   (newBTree (2 ^ 44) (2 ^ 50) :: error + (int, unit) btree) = Inl LenOutOfRange \<and>
   (newBTree (2 ^ 44) (2 ^ 62 + 5) :: error + (int, unit) btree) = Inl LenOutOfRange"
proof -
  have "(newBTree (2 ^ 44) 0 :: error + (int, unit) btree) = Inl InvalidMinDegree"
    using newBTree_guard [of 0 "2 ^ 44", where ?'k = int and ?'v = unit] by simp
  moreover have "(newBTree (2 ^ 44) 1 :: error + (int, unit) btree) = Inl InvalidMinDegree"
    using newBTree_guard [of 1 "2 ^ 44", where ?'k = int and ?'v = unit] by simp
  moreover have "(newBTree (2 ^ 44) (- 3) :: error + (int, unit) btree) = Inl InvalidMinDegree"
    using newBTree_guard [of "- 3" "2 ^ 44", where ?'k = int and ?'v = unit] by simp
  moreover have "\<exists>b :: (int, unit) btree. newBTree (2 ^ 44) 2 = Inr b \<and> isLeaf (root b) \<and>
      node_n (root b) = 0 \<and> len b = 0 \<and> btree_t b = 2"
    using newBTree_guard [of 2 "2 ^ 44", where ?'k = int and ?'v = unit] by auto
  moreover have "(newBTree (2 ^ 44) (2 ^ 50) :: error + (int, unit) btree) = Inl LenOutOfRange"
    using newBTree_guard [of "2 ^ 50" "2 ^ 44", where ?'k = int and ?'v = unit] by simp
  moreover have "(newBTree (2 ^ 44) (2 ^ 62 + 5) :: error + (int, unit) btree) = Inl LenOutOfRange"
    using newBTree_guard [of "2 ^ 62 + 5" "2 ^ 44", where ?'k = int and ?'v = unit] by simp
  ultimately show ?thesis by blast
qed

section \<open>Search\<close>

text \<open>
  C1. Search correctness asks that, after any sequence of inserts into a tree made by
  \<open>newBTree t\<close> with \<open>t \<ge> 2\<close>, searching for an inserted item returns an item that
  compares equal to it. \<open>search\<close> does not do this. With \<open>t = 2\<close>, after inserting 1, 2,
  3, 4 the root is an internal node with one item and two children in a child array of
  length 4; searching 4 runs past the root's only item and then reads
  \<open>children[len(children) - 1]\<close>, the nil slot 3, instead of \<open>children[n]\<close>: a nil
  dereference.
\<close>

theorem search_misses_inserted_item:
  "\<exists>b0 b. newBTree (2 ^ 44) 2 = Inr b0 \<and>
     insertAll b0 [(1, ()), (2, ()), (3, ()), (4, ())] = Inr (b :: (int, unit) btree) \<and>
     inorder (root b) = [(1, ()), (2, ()), (3, ()), (4, ())] \<and>
     btree_search b (4, ()) = Inl NilDereference"
proof -
  let ?b0 = "\<lparr>root = newNode 2 True, btree_t = 2, len = 0\<rparr> :: (int, unit) btree"
  have nb: "newBTree (2 ^ 44) 2 = Inr ?b0" by (simp add: newBTree_def)
  have "(case insertAll ?b0 [(1, ()), (2, ()), (3, ()), (4, ())] of
           Inl e \<Rightarrow> False
         | Inr b \<Rightarrow>
             inorder (root b) = [(1, ()), (2, ()), (3, ()), (4, ())] \<and>
             btree_search b (4, ()) = Inl NilDereference)"
    by code_simp
  then show ?thesis using nb by (auto split: sum.splits simp del: insertAll.simps)
qed

text \<open>
  C4. When the scan of \<open>Node.search\<close> runs past every item, a leaf is to return absent
  and an internal node is to recurse into its rightmost child, the one at index \<open>n\<close>.
  \<open>search\<close> recurses into the child at index \<open>len(children) - 1 = 2t - 1\<close> instead. With
  \<open>t = 2\<close>, after inserting 5, 3, 8, 1, 4, 7, 2, 6 the root holds two items; searching 9
  runs past both, the child at index \<open>n = 2\<close> answers absent, and the search itself
  dereferences the nil slot 3.
\<close>

theorem search_last_child_index:
  "\<exists>b0 b c. newBTree (2 ^ 44) 2 = Inr b0 \<and>
     insertAll b0 [(5, ()), (3, ()), (8, ()), (1, ()), (4, ()), (7, ()), (2, ()), (6, ())] =
       Inr (b :: (int, unit) btree) \<and>
     \<not> isLeaf (root b) \<and> node_n (root b) = 2 \<and> length (children (root b)) = 4 \<and>
     scanItems (9, ()) (items (root b)) (node_n (root b)) 0 = Inr Exhausted \<and>
     childAt (root b) (node_n (root b)) = Inr c \<and> node_search c (9, ()) = Inr None \<and>
     childAt (root b) (length (children (root b)) - 1) = Inl NilDereference \<and>
     node_search (root b) (9, ()) = Inl NilDereference"
proof -
  let ?b0 = "\<lparr>root = newNode 2 True, btree_t = 2, len = 0\<rparr> :: (int, unit) btree"
  have nb: "newBTree (2 ^ 44) 2 = Inr ?b0" by (simp add: newBTree_def)
  have "(case insertAll ?b0
                [(5, ()), (3, ()), (8, ()), (1, ()), (4, ()), (7, ()), (2, ()), (6, ())] of
           Inl e \<Rightarrow> False
         | Inr b \<Rightarrow>
             (case childAt (root b) (node_n (root b)) of
                Inl e \<Rightarrow> False
              | Inr c \<Rightarrow>
                  \<not> isLeaf (root b) \<and> node_n (root b) = 2 \<and>
                  length (children (root b)) = 4 \<and>
                  scanItems (9, ()) (items (root b)) (node_n (root b)) 0 = Inr Exhausted \<and>
                  node_search c (9, ()) = Inr None \<and>
                  childAt (root b) (length (children (root b)) - 1) = Inl NilDereference \<and>
                  node_search (root b) (9, ()) = Inl NilDereference))"
    by code_simp
  then show ?thesis using nb by (auto split: sum.splits simp del: insertAll.simps)
qed

text \<open>
  C7. With \<open>t \<ge> 2\<close> and comparable items, \<open>search\<close> and \<open>insert\<close> are never to reach an
  out-of-bounds index or a nil child. \<open>insert\<close> never does (\<open>insertAll_spec\<close>); \<open>search\<close>
  does. In a leaf, the \<open>lessThan\<close> case indexes the nil \<open>children\<close> slice: with \<open>t = 2\<close>,
  after inserting 5, searching 3 panics on the index.
\<close>

theorem search_panics_on_leaf:
  "\<exists>b0 b. newBTree (2 ^ 44) 2 = Inr b0 \<and> insertAll b0 [(5, ())] = Inr (b :: (int, unit) btree) \<and>
     isLeaf (root b) \<and> children (root b) = [] \<and>
     scanItems (3, ()) (items (root b)) (node_n (root b)) 0 = Inr (Descend 0) \<and>
     btree_search b (3, ()) = Inl IndexOutOfRange"
proof -
  let ?b0 = "\<lparr>root = newNode 2 True, btree_t = 2, len = 0\<rparr> :: (int, unit) btree"
  have nb: "newBTree (2 ^ 44) 2 = Inr ?b0" by (simp add: newBTree_def)
  have "(case insertAll ?b0 [(5, ())] of
           Inl e \<Rightarrow> False
         | Inr b \<Rightarrow>
             isLeaf (root b) \<and> children (root b) = [] \<and>
             scanItems (3, ()) (items (root b)) (node_n (root b)) 0 = Inr (Descend 0) \<and>
             btree_search b (3, ()) = Inl IndexOutOfRange)"
    by code_simp
  then show ?thesis using nb by (auto split: sum.splits simp del: insertAll.simps)
qed

lemma ins_mem: "x \<in> set (ins x xs)"
  by (induction xs) auto

lemma ins_same_key:
  fixes x :: "('k::linorder, 'v) item"
  shows "fst x' = fst x \<Longrightarrow> ins x' (ins x xs) = ins x' xs"
  by (induction xs) auto

section \<open>Insert\<close>

text \<open>
  C3. In every state that satisfies the invariant, \<open>btree_insert b x\<close> succeeds and the
  in-order traversal of the new tree is that of the old one with \<open>x\<close> put in the place
  of the stored item with its key, or at its place in the order when there is none; the
  new state satisfies the invariant again. If no stored item has the key of \<open>x\<close> it
  returns absent and \<open>len\<close> grows by one; if a stored item \<open>y\<close> has the key of \<open>x\<close> it
  returns \<open>y\<close> and \<open>len\<close> is unchanged. In particular, on every such state that lacks a
  key (a new tree among them), inserting the key with payload \<open>p1\<close> returns absent,
  inserting it again with payload \<open>p2\<close> returns the item with \<open>p1\<close>, and \<open>len\<close> has
  grown by one after both.
\<close>

theorem insert_result:
  fixes x :: "('k::linorder, 'v) item" and b :: "('k, 'v) btree"
    and p1 p2 :: 'v and k :: 'k
  shows "(btreeInv b \<longrightarrow>
          (\<exists>prev b'. btree_insert b x = Inr (prev, b') \<and>
             btreeInv b' \<and> btree_t b' = btree_t b \<and>
             inorder (root b') = ins x (inorder (root b)) \<and>
             ((\<forall>y\<in>set (inorder (root b)). fst y \<noteq> fst x) \<longrightarrow>
                prev = None \<and> len b' = len b + 1) \<and>
             (\<forall>y\<in>set (inorder (root b)). fst y = fst x \<longrightarrow>
                prev = Some y \<and> len b' = len b))) \<and>
         (btreeInv b \<and> (\<forall>y\<in>set (inorder (root b)). fst y \<noteq> k) \<longrightarrow>
          (\<exists>b1 b2. btree_insert b (k, p1) = Inr (None, b1) \<and>
             btree_insert b1 (k, p2) = Inr (Some (k, p1), b2) \<and>
             len b1 = len b + 1 \<and> len b2 = len b + 1 \<and>
             inorder (root b1) = ins (k, p1) (inorder (root b)) \<and>
             inorder (root b2) = ins (k, p2) (inorder (root b)))) \<and>
         (2 \<le> sint t \<and> sint t < 2 ^ 62 \<and> 2 * sint t - 1 \<le> int maxLen \<longrightarrow>
          (\<exists>b0 b1 b2. newBTree maxLen t = Inr b0 \<and>
             btree_insert (b0 :: ('k, 'v) btree) (k, p1) = Inr (None, b1) \<and>
             btree_insert b1 (k, p2) = Inr (Some (k, p1), b2) \<and>
             len b0 = 0 \<and> len b1 = 1 \<and> len b2 = 1 \<and>
             inorder (root b1) = [(k, p1)] \<and> inorder (root b2) = [(k, p2)]))"
proof -
  have one: "\<exists>prev b'. btree_insert b x = Inr (prev, b') \<and>
             btreeInv b' \<and> btree_t b' = btree_t b \<and>
             inorder (root b') = ins x (inorder (root b)) \<and>
             ((\<forall>y\<in>set (inorder (root b)). fst y \<noteq> fst x) \<longrightarrow>
                prev = None \<and> len b' = len b + 1) \<and>
             (\<forall>y\<in>set (inorder (root b)). fst y = fst x \<longrightarrow>
                prev = Some y \<and> len b' = len b)"
    if inv: "btreeInv b" for b :: "('k, 'v) btree" and x :: "('k, 'v) item"
  proof -
    define prev where "prev = stored x (inorder (root b))"
    obtain b' where b': "btree_insert b x = Inr (prev, b')"
      "len b' = (if prev = None then len b + 1 else len b)"
      using btree_insert_spec [OF inv, of x] by (auto simp: prev_def)
    note keep = btreeInv_insert [OF inv b'(1)]
    have asc: "ascending (inorder (root b))" using inv by (simp add: btreeInv_def)
    have "(\<forall>y\<in>set (inorder (root b)). fst y \<noteq> fst x) \<longrightarrow> prev = None \<and> len b' = len b + 1"
      using b'(2) stored_None_iff [of x "inorder (root b)"] by (simp add: prev_def)
    moreover have "\<forall>y\<in>set (inorder (root b)). fst y = fst x \<longrightarrow> prev = Some y \<and> len b' = len b"
      using b'(2) stored_present [OF asc] by (simp add: prev_def)
    ultimately show ?thesis using b'(1) keep by blast
  qed
  have two: "\<exists>b1 b2. btree_insert b (k, p1) = Inr (None, b1) \<and>
             btree_insert b1 (k, p2) = Inr (Some (k, p1), b2) \<and>
             len b1 = len b + 1 \<and> len b2 = len b + 1 \<and>
             inorder (root b1) = ins (k, p1) (inorder (root b)) \<and>
             inorder (root b2) = ins (k, p2) (inorder (root b))"
    if inv: "btreeInv b" and lack: "\<forall>y\<in>set (inorder (root b)). fst y \<noteq> k"
    for b :: "('k, 'v) btree"
  proof -
    obtain b1 where b1: "btree_insert b (k, p1) = Inr (None, b1)" "btreeInv b1"
      "inorder (root b1) = ins (k, p1) (inorder (root b))" "len b1 = len b + 1"
      using one [OF inv, of "(k, p1)"] lack by auto
    have mem: "(k, p1) \<in> set (inorder (root b1))" unfolding b1(3) by (rule ins_mem)
    obtain b2 where b2: "btree_insert b1 (k, p2) = Inr (Some (k, p1), b2)"
      "inorder (root b2) = ins (k, p2) (inorder (root b1))" "len b2 = len b1"
      using one [OF b1(2), of "(k, p2)"] mem by fastforce
    have "inorder (root b2) = ins (k, p2) (inorder (root b))"
      unfolding b2(2) b1(3) by (rule ins_same_key) simp
    then show ?thesis using b1 b2 by auto
  qed
  have three: "\<exists>b0 b1 b2. newBTree maxLen t = Inr b0 \<and>
             btree_insert (b0 :: ('k, 'v) btree) (k, p1) = Inr (None, b1) \<and>
             btree_insert b1 (k, p2) = Inr (Some (k, p1), b2) \<and>
             len b0 = 0 \<and> len b1 = 1 \<and> len b2 = 1 \<and>
             inorder (root b1) = [(k, p1)] \<and> inorder (root b2) = [(k, p2)]"
    if t: "2 \<le> sint t \<and> sint t < 2 ^ 62 \<and> 2 * sint t - 1 \<le> int maxLen"
  proof -
    obtain b0 :: "('k, 'v) btree" where b0: "newBTree maxLen t = Inr b0"
      using newBTree_ok [of t maxLen] t by blast
    note n0 = btreeInv_new [OF b0]
    have lack: "\<forall>y\<in>set (inorder (root b0)). fst y \<noteq> k" using n0(2) by simp
    show ?thesis using two [OF n0(1) lack] b0 n0(2,4) by auto
  qed
  show ?thesis using one [of b x] two [of b] three by blast
qed


theorem insert_result_witness:
  "(\<exists>prev b'. btree_insert \<lparr>root = Node True 1 [Some (10 :: int, 0 :: nat), None, None] [],
                              btree_t = 2, len = 1\<rparr> (10, 1) = Inr (prev, b') \<and>
      prev = Some (10, 0) \<and> len b' = 1 \<and> inorder (root b') = [(10, 1)]) \<and>
   (\<exists>prev b'. btree_insert \<lparr>root = Node True 1 [Some (10 :: int, 0 :: nat), None, None] [],
                              btree_t = 2, len = 1\<rparr> (7, 1) = Inr (prev, b') \<and>
      prev = None \<and> len b' = 2 \<and> inorder (root b') = [(7, 1), (10, 0)]) \<and>
   (\<exists>b1 b2. btree_insert \<lparr>root = Node True 1 [Some (10 :: int, 0 :: nat), None, None] [],
                            btree_t = 2, len = 1\<rparr> (7, 0) = Inr (None, b1) \<and>
      btree_insert b1 (7, 1) = Inr (Some (7, 0), b2) \<and> len b1 = 2 \<and> len b2 = 2 \<and>
      inorder (root b2) = [(7, 1), (10, 0)]) \<and>
   (\<exists>b0 b1 b2. newBTree (2 ^ 44) 2 = Inr b0 \<and>
      btree_insert (b0 :: (int, nat) btree) (10, 0) = Inr (None, b1) \<and>
      btree_insert b1 (10, 1) = Inr (Some (10, 0), b2) \<and> len b2 = 1)"
proof -
  let ?b = "\<lparr>root = Node True 1 [Some (10 :: int, 0 :: nat), None, None] [],
             btree_t = 2, len = 1\<rparr>"
  have inv: "btreeInv ?b" by code_simp
  have ino: "inorder (root ?b) = [(10, 0)]" by code_simp
  have a: "\<exists>prev b'. btree_insert ?b (10, 1) = Inr (prev, b') \<and>
      prev = Some (10, 0) \<and> len b' = 1 \<and> inorder (root b') = [(10, 1)]"
    using insert_result [of ?b "(10, 1)" 7 0 1 2 "2 ^ 44"] inv ino by auto
  have b: "\<exists>prev b'. btree_insert ?b (7, 1) = Inr (prev, b') \<and>
      prev = None \<and> len b' = 2 \<and> inorder (root b') = [(7, 1), (10, 0)]"
    using insert_result [of ?b "(7, 1)" 7 0 1 2 "2 ^ 44"] inv ino by auto
  have c: "\<exists>b1 b2. btree_insert ?b (7, 0) = Inr (None, b1) \<and>
      btree_insert b1 (7, 1) = Inr (Some (7, 0), b2) \<and> len b1 = 2 \<and> len b2 = 2 \<and>
      inorder (root b2) = [(7, 1), (10, 0)]"
    using insert_result [of ?b "(7, 1)" 7 0 1 2 "2 ^ 44"] inv ino by auto
  have d: "\<exists>b0 b1 b2. newBTree (2 ^ 44) 2 = Inr b0 \<and>
      btree_insert (b0 :: (int, nat) btree) (10, 0) = Inr (None, b1) \<and>
      btree_insert b1 (10, 1) = Inr (Some (10, 0), b2) \<and> len b2 = 1"
    using insert_result [of ?b "(7, 1)" 10 0 1 2 "2 ^ 44"] by auto
  show ?thesis using a b c d by blast
qed

text \<open>
  C2. For every \<open>t \<ge> 2\<close> for which \<open>newBTree t\<close> makes a tree (\<open>t < 2^62\<close> and the
  root's \<open>2t-1\<close> item slots within what the runtime allocates) and every sequence of
  inserts into that tree, all inserts
  succeed and the resulting tree has an ascending in-order traversal (strictly, so
  without duplicates), a root of at most \<open>2t-1\<close> items, between \<open>t-1\<close> and \<open>2t-1\<close> items
  in every node below the root, and all its leaves on one level. The source's own
  checker returns nil on it.
\<close>

theorem insert_keeps_invariants:
  fixes xs :: "('k::linorder, 'v) item list"
  assumes "2 \<le> sint t" "sint t < 2 ^ 62" "2 * sint t - 1 \<le> int maxLen"
  shows "\<exists>b0 b. newBTree maxLen t = Inr b0 \<and> insertAll b0 xs = Inr b \<and>
           int (btree_t b) = sint t \<and>
           ascending (inorder (root b)) \<and>
           node_n (root b) \<le> 2 * btree_t b - 1 \<and>
           (\<forall>m\<in>set (concat (map nodes (kids (root b)))).
              btree_t b - 1 \<le> node_n m \<and> node_n m \<le> 2 * btree_t b - 1) \<and>
           (\<exists>h. set (leafLevels (root b) 1) = {h}) \<and>
           checkInvariances b = Inr (None, b)"
proof -
  obtain b0 :: "('k, 'v) btree" where b0: "newBTree maxLen t = Inr b0"
    using newBTree_ok [OF assms] by blast
  note n0 = btreeInv_new [OF b0]
  obtain b where b: "insertAll b0 xs = Inr b" "btreeInv b" "btree_t b = btree_t b0"
    using insertAll_spec [OF n0(1), of xs] by blast
  define h where "h = height (root b)"
  have bt: "bt (btree_t b) h (root b)" and asc: "ascending (inorder (root b))"
    using b(2) by (simp_all add: btreeInv_def h_def)
  have rootn: "node_n (root b) \<le> 2 * btree_t b - 1"
    using bt_local [OF bt] by (simp add: sized_def)
  have below: "\<forall>m\<in>set (concat (map nodes (kids (root b)))).
                 btree_t b - 1 \<le> node_n m \<and> node_n m \<le> 2 * btree_t b - 1"
  proof
    fix m assume "m \<in> set (concat (map nodes (kids (root b))))"
    then obtain c where c: "c \<in> set (kids (root b))" "m \<in> set (nodes c)" by auto
    have "bt (btree_t b) (h - 1) c" "btree_t b - 1 \<le> node_n c"
      using bt_kid [OF bt c(1)] by simp_all
    then show "btree_t b - 1 \<le> node_n m \<and> node_n m \<le> 2 * btree_t b - 1"
      using bt_nodes [of "btree_t b" "h - 1" c m] c(2) by auto
  qed
  have "set (leafLevels (root b) 1) = {1 + h - 1}" by (rule bt_leafLevels [OF bt])
  then have lv: "\<exists>h. set (leafLevels (root b) 1) = {h}" by blast
  show ?thesis
    using b0 b(1,3) n0(3) asc rootn below lv checkInvariances_pass [OF b(2)] by auto
qed

theorem insert_keeps_invariants_witness:
  "\<exists>b0 b. newBTree (2 ^ 44) 2 = Inr b0 \<and>
     insertAll b0 [(5, ()), (3, ()), (8, ()), (1, ()), (4, ()), (7, ()), (2, ()), (6, ())] =
       Inr (b :: (int, unit) btree) \<and>
     int (btree_t b) = sint (2 :: 64 word) \<and>
     ascending (inorder (root b)) \<and>
     node_n (root b) \<le> 2 * btree_t b - 1 \<and>
     (\<forall>m\<in>set (concat (map nodes (kids (root b)))).
        btree_t b - 1 \<le> node_n m \<and> node_n m \<le> 2 * btree_t b - 1) \<and>
     (\<exists>h. set (leafLevels (root b) 1) = {h}) \<and>
     checkInvariances b = Inr (None, b)"
  by (rule insert_keeps_invariants) simp_all

text \<open>
  C5. \<open>splitChild t i\<close> on a well-formed internal node with room for one more item whose
  child \<open>y\<close> at index \<open>i\<close> is full: it returns the item of \<open>y\<close> at index \<open>t-1\<close>; the parent
  gains it at index \<open>i\<close>, the items from \<open>i\<close> on moving one slot right, and has one item
  more; at indices \<open>i\<close> and \<open>i+1\<close> the parent holds \<open>y'\<close> and the new node \<open>z\<close>, the
  children after \<open>i\<close> moving one slot right; \<open>y'\<close> holds the first \<open>t-1\<close> items and first
  \<open>t\<close> children of \<open>y\<close>, \<open>z\<close> its items from index \<open>t\<close> and children from index \<open>t\<close>;
  both have \<open>t-1\<close> items and are leaves exactly when \<open>y\<close> is.
\<close>

theorem splitChild_effect:
  assumes "slotsOk nd" "sized t nd" "\<not> isLeaf nd" "node_n nd < 2 * t - 1" "i \<le> node_n nd"
    and "slotsOk (kids nd ! i)" "sized t (kids nd ! i)" "node_n (kids nd ! i) = 2 * t - 1"
    and "1 \<le> t"
  shows "\<exists>m nd' y' z.
           splitChild t i nd = Inr (Some m, nd') \<and> m = lits (kids nd ! i) ! (t - 1) \<and>
           node_n nd' = node_n nd + 1 \<and>
           lits nd' = take i (lits nd) @ m # drop i (lits nd) \<and>
           kids nd' = take i (kids nd) @ y' # z # drop (Suc i) (kids nd) \<and>
           node_n y' = t - 1 \<and> node_n z = t - 1 \<and>
           isLeaf y' = isLeaf (kids nd ! i) \<and> isLeaf z = isLeaf (kids nd ! i) \<and>
           lits y' = take (t - 1) (lits (kids nd ! i)) \<and> lits z = drop t (lits (kids nd ! i)) \<and>
           kids y' = take t (kids (kids nd ! i)) \<and> kids z = drop t (kids (kids nd ! i)) \<and>
           length (lits (kids nd ! i)) = 2 * t - 1 \<and>
           slotsOk nd' \<and> slotsOk y' \<and> slotsOk z"
proof -
  obtain nd' where nd': "splitChild t i nd = Inr (Some (lits (kids nd ! i) ! (t - 1)), nd')"
    "slotsOk nd'" "node_n nd' = node_n nd + 1"
    "lits nd' = take i (lits nd) @ lits (kids nd ! i) ! (t - 1) # drop i (lits nd)"
    "kids nd' = take i (kids nd) @ lowerHalf t (kids nd ! i) # upperHalf t (kids nd ! i)
                  # drop (Suc i) (kids nd)"
    using splitChild_spec [OF assms] by blast
  note lo = lowerHalf_spec [OF assms(6-9)]
  note up = upperHalf_spec [OF assms(6-9)]
  note fi = full_items(2) [OF assms(6-8)]
  show ?thesis
    using nd' lo up fi
    by (intro exI [of _ "lits (kids nd ! i) ! (t - 1)"] exI [of _ nd']
        exI [of _ "lowerHalf t (kids nd ! i)"] exI [of _ "upperHalf t (kids nd ! i)"]) simp
qed

theorem splitChild_effect_witness:
  "\<exists>nd' y' z.
     splitChild 2 0
       (Node False 0 [None, None, None]
          [Some (Node True 3 [Some (1 :: int, ()), Some (2, ()), Some (3, ())] []),
           None, None, None]) = Inr (Some (2, ()), nd') \<and>
     node_n nd' = 1 \<and> lits nd' = [(2, ())] \<and> kids nd' = [y', z] \<and>
     lits y' = [(1, ())] \<and> lits z = [(3, ())] \<and> node_n y' = 1 \<and> node_n z = 1"
proof -
  let ?y = "Node True 3 [Some (1 :: int, ()), Some (2, ()), Some (3, ())] []"
  let ?nd = "Node False 0 [None, None, None] [Some ?y, None, None, None]"
  have h: "slotsOk ?nd" "sized 2 ?nd" "\<not> isLeaf ?nd" "node_n ?nd < 2 * 2 - 1" "0 \<le> node_n ?nd"
    "slotsOk (kids ?nd ! 0)" "sized 2 (kids ?nd ! 0)" "node_n (kids ?nd ! 0) = 2 * 2 - 1"
    "(1 :: nat) \<le> 2"
    by (simp_all add: slotsOk_def sized_def kids_def)
  have k: "kids ?nd = [?y]" "lits ?nd = []" "lits ?y = [(1, ()), (2, ()), (3, ())]" "kids ?y = []"
    by (simp_all add: kids_def lits_def)
  show ?thesis
    using splitChild_effect [OF h] by (auto simp: k)
qed


lemma growRoot_split:
  "growRoot t old = Inr r \<Longrightarrow>
   \<exists>m. splitChild t 0 (setChild (newNode t False) 0 old) = Inr (m, r)"
  by (auto simp: growRoot_def Let_def split: if_splits sum.splits)

lemma newRoot_kids: "1 \<le> t \<Longrightarrow> kids (setChild (newNode t False) 0 old) = [old]"
proof -
  assume "1 \<le> t"
  then obtain k where "2 * t = Suc k" by (cases "2 * t") auto
  then show ?thesis by (simp add: kids_def setChild_def newNode_def)
qed

text \<open>
  C6. In every state that satisfies the invariant, \<open>btree_insert\<close> succeeds. When the root
  is full, the node that \<open>Node.insert\<close> is then called on is the result of \<open>splitChild t 0\<close>
  on a new internal node whose only child is the old root: it has one item and two
  children, and the leaves of the resulting tree are one level deeper than before. When
  the root is not full, \<open>Node.insert\<close> is called on the root itself and the leaves stay on
  their level.
\<close>

theorem insert_growth:
  fixes x :: "('k::linorder, 'v) item"
  assumes "btreeInv b"
  shows "\<exists>prev b' h. btree_insert b x = Inr (prev, b') \<and>
           set (leafLevels (root b) 1) = {h} \<and>
           (if node_n (root b) = 2 * btree_t b - 1
            then (\<exists>m r. kids (setChild (newNode (btree_t b) False) 0 (root b)) = [root b] \<and>
                    splitChild (btree_t b) 0
                      (setChild (newNode (btree_t b) False) 0 (root b)) = Inr (m, r) \<and>
                    \<not> isLeaf r \<and> node_n r = 1 \<and> length (kids r) = 2 \<and>
                    node_insert (btree_t b) r x = Inr (prev, root b')) \<and>
                 set (leafLevels (root b') 1) = {h + 1}
            else node_insert (btree_t b) (root b) x = Inr (prev, root b') \<and>
                 set (leafLevels (root b') 1) = {h})"
proof -
  define t where "t = btree_t b"
  define h where "h = height (root b)"
  define full where "full \<longleftrightarrow> node_n (root b) = 2 * t - 1"
  have t: "2 \<le> t" and bt: "bt t h (root b)"
    using assms by (simp_all add: btreeInv_def t_def h_def)
  have h1: "1 \<le> h" using bt_local [OF bt] by auto
  obtain r r' where r: "(if full then growRoot t (root b) else Inr (root b)) = Inr r"
    and ins: "node_insert t r x = Inr (stored x (inorder (root b)), r')"
    and run: "btree_insert b x =
             Inr (stored x (inorder (root b)),
                  b\<lparr>root := r',
                    len := (if stored x (inorder (root b)) = None then len b + 1 else len b)\<rparr>)"
    and bt': "bt t (if full then Suc h else h) r'"
    using btree_insert_spec [OF assms, of x] unfolding t_def h_def full_def by blast
  define b' where "b' = b\<lparr>root := r',
                    len := (if stored x (inorder (root b)) = None then len b + 1 else len b)\<rparr>"
  have rb': "root b' = r'" by (simp add: b'_def)
  have lv: "set (leafLevels (root b) 1) = {h}" using bt_leafLevels [OF bt, of 1] h1 by simp
  have lv': "set (leafLevels r' 1) = {if full then h + 1 else h}"
    using bt_leafLevels [OF bt', of 1] h1 by simp
  have "if full
        then (\<exists>m r. kids (setChild (newNode t False) 0 (root b)) = [root b] \<and>
                splitChild t 0 (setChild (newNode t False) 0 (root b)) = Inr (m, r) \<and>
                \<not> isLeaf r \<and> node_n r = 1 \<and> length (kids r) = 2 \<and>
                node_insert t r x = Inr (stored x (inorder (root b)), root b')) \<and>
             set (leafLevels (root b') 1) = {h + 1}
        else node_insert t (root b) x = Inr (stored x (inorder (root b)), root b') \<and>
             set (leafLevels (root b') 1) = {h}"
  proof (cases full)
    case True
    then have g: "growRoot t (root b) = Inr r" using r by simp
    obtain m where m: "splitChild t 0 (setChild (newNode t False) 0 (root b)) = Inr (m, r)"
      using growRoot_split [OF g] by blast
    have "\<not> isLeaf r" "node_n r = 1" "length (kids r) = 2"
      using growRoot_spec [OF t bt] True g by (auto simp: full_def)
    moreover have "kids (setChild (newNode t False) 0 (root b)) = [root b]"
      using newRoot_kids [of t] t by simp
    ultimately show ?thesis using True m ins lv' rb' by auto
  next
    case False
    then have "r = root b" using r by simp
    then show ?thesis using False ins lv' rb' by simp
  qed
  then show ?thesis
    using run lv unfolding b'_def [symmetric] t_def [symmetric] full_def [symmetric]
    by blast
qed

theorem insert_growth_witness:
  "(\<exists>prev b' m r.
      btree_insert \<lparr>root = Node True 3 [Some (1 :: int, ()), Some (2, ()), Some (3, ())] [],
                    btree_t = 2, len = 3\<rparr> (4, ()) = Inr (prev, b') \<and>
      splitChild 2 0
        (setChild (newNode 2 False) 0
           (Node True 3 [Some (1 :: int, ()), Some (2, ()), Some (3, ())] [])) = Inr (m, r) \<and>
      node_n r = 1 \<and> length (kids r) = 2 \<and>
      node_insert 2 r (4, ()) = Inr (prev, root b') \<and>
      set (leafLevels (root b') 1) = {2}) \<and>
   (\<exists>prev b'.
      btree_insert \<lparr>root = Node True 2 [Some (1 :: int, ()), Some (2, ()), None] [],
                    btree_t = 2, len = 2\<rparr> (4, ()) = Inr (prev, b') \<and>
      set (leafLevels (root b') 1) = {1})"
proof -
  let ?full = "\<lparr>root = Node True 3 [Some (1 :: int, ()), Some (2, ()), Some (3, ())] [],
                btree_t = 2, len = 3\<rparr>"
  let ?part = "\<lparr>root = Node True 2 [Some (1 :: int, ()), Some (2, ()), None] [],
                btree_t = 2, len = 2\<rparr>"
  have inv: "btreeInv ?full" "btreeInv ?part" by code_simp+
  have lv: "leafLevels (root ?full) 1 = [1]" "leafLevels (root ?part) 1 = [1]" by code_simp+
  have a: "\<exists>prev b' m r.
      btree_insert ?full (4, ()) = Inr (prev, b') \<and>
      splitChild 2 0 (setChild (newNode 2 False) 0 (root ?full)) = Inr (m, r) \<and>
      node_n r = 1 \<and> length (kids r) = 2 \<and>
      node_insert 2 r (4, ()) = Inr (prev, root b') \<and>
      set (leafLevels (root b') 1) = {2}"
    using insert_growth [OF inv(1), of "(4, ())"] lv(1) by auto
  have b: "\<exists>prev b'.
      btree_insert ?part (4, ()) = Inr (prev, b') \<and> set (leafLevels (root b') 1) = {1}"
    using insert_growth [OF inv(2), of "(4, ())"] lv(2) by auto
  show ?thesis using a b by simp
qed




text \<open>
  C10. A replace can restructure the tree. With \<open>t = 2\<close>, after inserting the keys 1, 2, 3
  the root is a full leaf; inserting key 3 again with another payload returns the stored
  item and leaves \<open>len\<close> and the keys of the in-order traversal as they were, and the root
  is now an internal node with one item and two children.
\<close>

theorem replace_restructures:
  "\<exists>b0 b b'. newBTree (2 ^ 44) 2 = Inr b0 \<and>
     insertAll b0 [(1, 0), (2, 0), (3, 0)] = Inr (b :: (int, nat) btree) \<and>
     isLeaf (root b) \<and> node_n (root b) = 3 \<and> len b = 3 \<and>
     map fst (inorder (root b)) = [1, 2, 3] \<and>
     btree_insert b (3, 1) = Inr (Some (3, 0), b') \<and>
     \<not> isLeaf (root b') \<and> node_n (root b') = 1 \<and> length (kids (root b')) = 2 \<and>
     len b' = 3 \<and> map fst (inorder (root b')) = [1, 2, 3]"
proof -
  let ?b0 = "\<lparr>root = newNode 2 True, btree_t = 2, len = 0\<rparr> :: (int, nat) btree"
  have nb: "newBTree (2 ^ 44) 2 = Inr ?b0" by (simp add: newBTree_def)
  have "(case insertAll ?b0 [(1, 0), (2, 0), (3, 0)] of
           Inl e \<Rightarrow> False
         | Inr b \<Rightarrow>
             (case btree_insert b (3, 1) of
                Inl e \<Rightarrow> False
              | Inr (prev, b') \<Rightarrow>
                  isLeaf (root b) \<and> node_n (root b) = 3 \<and> len b = 3 \<and>
                  map fst (inorder (root b)) = [1, 2, 3] \<and>
                  prev = Some (3, 0) \<and>
                  \<not> isLeaf (root b') \<and> node_n (root b') = 1 \<and>
                  length (kids (root b')) = 2 \<and>
                  len b' = 3 \<and> map fst (inorder (root b')) = [1, 2, 3]))"
    by code_simp
  then show ?thesis using nb by (auto split: sum.splits simp del: insertAll.simps)
qed

end
